theory Spec2Isabelle
  imports Main "HOL-Library.Word"
begin

unbundle bit_operations_syntax

section \<open>Machine integers, errors and containers\<close>

text \<open>
  \<^verbatim>\<open>unsigned int\<close> is a 32-bit word and \<^verbatim>\<open>size_t\<close> a 64-bit word; both wrap
  around.  Loop counters that are bounded by a container size are natural numbers.
\<close>

type_synonym uint = "32 word"
type_synonym size_t = "64 word"

text \<open>\<^verbatim>\<open>numeric_limits<unsigned int>::max()\<close>, the cost sentinel for "no solution".\<close>

definition uint_max :: uint where
  "uint_max = 4294967295"

text \<open>
  Every way in which the C++ code leaves its normal control flow is a value:
  \<^item> \<open>MendelianConflict\<close>: the \<^verbatim>\<open>runtime_error\<close> thrown by \<^verbatim>\<open>compute_column\<close>;
  \<^item> \<open>InvariantViolation\<close>: a failed \<^verbatim>\<open>assert\<close>;
  \<^item> \<open>OutOfRange\<close>: \<^verbatim>\<open>std::out_of_range\<close> thrown by \<^verbatim>\<open>vector::at\<close>;
  \<^item> \<open>PreconditionViolation\<close>: malformed caller data reported by a collaborator;
  \<^item> \<open>Undefined\<close>: undefined behaviour of C++ (a null pointer dereferenced, an
    unchecked \<^verbatim>\<open>operator[]\<close> out of range, a division by zero).
\<close>

datatype error = MendelianConflict | InvariantViolation | OutOfRange
  | PreconditionViolation | Undefined

text \<open>Unchecked \<^verbatim>\<open>v[i]\<close> and checked \<^verbatim>\<open>v.at(i)\<close> on a \<^verbatim>\<open>std::vector\<close>.\<close>

definition at_ub :: "'a list \<Rightarrow> nat \<Rightarrow> error + 'a" where
  "at_ub xs i = (if i < length xs then Inr (xs ! i) else Inl Undefined)"

definition at_chk :: "'a list \<Rightarrow> nat \<Rightarrow> error + 'a" where
  "at_chk xs i = (if i < length xs then Inr (xs ! i) else Inl OutOfRange)"

text \<open>
  Modelled from the spec: \<^verbatim>\<open>Vector2D<unsigned int>\<close> (its header is not part of the
  sources), the dense 2-D table of section 3 with \<open>size0 \<times> size1\<close> cells stored row by
  row.  An access outside the table is an assertion-class failure (section 7,
  InvariantViolation).
\<close>

record vector2d =
  size0 :: nat
  size1 :: nat
  cells :: "uint list"

definition Vector2D :: "nat \<Rightarrow> nat \<Rightarrow> uint \<Rightarrow> vector2d" where
  "Vector2D n0 n1 initial_value =
     \<lparr>size0 = n0, size1 = n1, cells = replicate (n0 * n1) initial_value\<rparr>"

definition v2_at :: "vector2d \<Rightarrow> nat \<Rightarrow> nat \<Rightarrow> error + uint" where
  "v2_at t index0 index1 =
     (if index0 < size0 t \<and> index1 < size1 t \<and> index0 * size1 t + index1 < length (cells t)
      then Inr (cells t ! (index0 * size1 t + index1))
      else Inl InvariantViolation)"

definition v2_set :: "vector2d \<Rightarrow> nat \<Rightarrow> nat \<Rightarrow> uint \<Rightarrow> error + vector2d" where
  "v2_set t index0 index1 val =
     (if index0 < size0 t \<and> index1 < size1 t \<and> index0 * size1 t + index1 < length (cells t)
      then Inr (t\<lparr>cells := (cells t)[index0 * size1 t + index1 := val]\<rparr>)
      else Inl InvariantViolation)"

section \<open>Recombination count and the relaxation candidate\<close>

text \<open>
  \<^verbatim>\<open>PedigreeDPTable::popcount\<close>: the loop \<^verbatim>\<open>for (;x; x >>= 1) count += x & 1;\<close> with
  an \<^verbatim>\<open>unsigned int\<close> counter, returned as \<^verbatim>\<open>size_t\<close>.
\<close>

function popcount_loop :: "size_t \<Rightarrow> uint \<Rightarrow> uint" where
  "popcount_loop x count =
     (if x \<noteq> 0 then popcount_loop (drop_bit 1 x) (count + ucast (x AND 1)) else count)"
  by pat_completeness auto
termination
proof (relation "measure (\<lambda>(x, count). unat x)")
  show "wf (measure (\<lambda>(x, count). unat x))" by simp
next
  fix x :: size_t and count :: uint
  assume "x \<noteq> 0"
  then have "0 < unat x" by (simp add: unat_gt_0)
  moreover have "unat (drop_bit 1 x) = unat x div 2"
    by (simp add: unat_drop_bit_eq drop_bit_eq_div unat_div)
  ultimately show "((drop_bit 1 x, count + ucast (x AND 1)), (x, count))
      \<in> measure (\<lambda>(x, count). unat x)"
    by simp
qed

definition popcount :: "size_t \<Rightarrow> size_t" where
  "popcount x = ucast (popcount_loop x 0)"

text \<open>
  Lines 377--394 of \<^verbatim>\<open>compute_column\<close>: the value \<^verbatim>\<open>val\<close> for the current pattern
  \<open>i\<close> and a predecessor pattern \<open>j\<close>.  Step 1 adds the cost of the current cell and the
  projected cost of the previous column, unless one of them is the sentinel.  Step 2
  adds \<^verbatim>\<open>popcount(i ^ j) * recombcost[column_index]\<close>: the product is a \<^verbatim>\<open>size_t\<close>,
  the sum is formed in \<^verbatim>\<open>size_t\<close> and stored back into the \<^verbatim>\<open>unsigned int\<close>.
\<close>

definition add_costs :: "uint \<Rightarrow> uint \<Rightarrow> uint" where
  "add_costs current_cost previous_cost =
     (if current_cost < uint_max \<and> previous_cost < uint_max
      then current_cost + previous_cost else uint_max)"

definition add_recombination :: "uint \<Rightarrow> nat \<Rightarrow> nat \<Rightarrow> uint \<Rightarrow> uint" where
  "add_recombination val i j rc =
     (let x = (of_nat i XOR of_nat j :: size_t)
      in ucast ((ucast val :: size_t) + popcount x * ucast rc))"

definition bind_r :: "error + 'a \<Rightarrow> ('a \<Rightarrow> error + 'b) \<Rightarrow> error + 'b" where
  "bind_r m f = (case m of Inl e \<Rightarrow> Inl e | Inr x \<Rightarrow> f x)"

text \<open>
  The body of the loop over the predecessor pattern \<open>j\<close> (lines 376--394): the previous
  cost is read from the previous projection column (for \<open>column_index > 0\<close>), and
  \<^verbatim>\<open>recombcost[column_index]\<close> is read only when \<^verbatim>\<open>val\<close> is not the sentinel.
\<close>

definition predecessor_value ::
  "uint list \<Rightarrow> nat \<Rightarrow> vector2d option \<Rightarrow> nat \<Rightarrow> uint \<Rightarrow> nat \<Rightarrow> nat \<Rightarrow> error + uint" where
  "predecessor_value recombcost column_index previous_projection_column
       backward_projection_index current_cost i j =
     bind_r (if column_index > 0
             then (case previous_projection_column of
                     None \<Rightarrow> Inl Undefined
                   | Some p \<Rightarrow> v2_at p backward_projection_index j)
             else Inr 0)
       (\<lambda>previous_cost.
          let val = add_costs current_cost previous_cost
          in if val < uint_max
             then bind_r (at_ub recombcost column_index)
                    (\<lambda>rc. Inr (add_recombination val i j rc))
             else Inr val)"

text \<open>Lines 376--401: the minimum over all predecessor patterns and where it is attained.\<close>

fun predecessor_loop ::
  "uint list \<Rightarrow> nat \<Rightarrow> vector2d option \<Rightarrow> nat \<Rightarrow> uint \<Rightarrow> nat \<Rightarrow> nat list
     \<Rightarrow> uint \<times> nat \<Rightarrow> error + (uint \<times> nat)" where
  "predecessor_loop rcs c prev bpi current_cost i [] acc = Inr acc"
| "predecessor_loop rcs c prev bpi current_cost i (j # js) (mn, min_index) =
     bind_r (predecessor_value rcs c prev bpi current_cost i j)
       (\<lambda>val. predecessor_loop rcs c prev bpi current_cost i js
                 (if val < mn then (val, j) else (mn, min_index)))"

section \<open>Data model and collaborators\<close>

text \<open>
  Modelled from the spec: \<^verbatim>\<open>Entry\<close>, \<^verbatim>\<open>Read\<close>, \<^verbatim>\<open>ReadSet\<close> and \<^verbatim>\<open>Pedigree\<close> (section 3;
  their sources are not part of the repository files at hand).  An entry is an
  observation \<open>(read_id, allele, quality)\<close>; a read has an identity, a sample and the
  variants it covers; a read set is the sequence of its reads; a pedigree is an ordered
  list of individuals and a list of triples.
\<close>

record entry =
  read_id :: nat
  allele :: nat
  quality :: nat

record read =
  name :: string
  mapq :: int
  source_id :: int
  sample_id :: nat
  ID :: int
  variants :: "(nat \<times> nat \<times> uint list) list"

type_synonym read_set = "read list"

text \<open>
  Modelled from the spec: \<^verbatim>\<open>ReadSet::reassignReadIds\<close>. After it the read IDs are dense
  in \<open>[0, num_reads)\<close>: the read at position \<open>i\<close> gets the ID \<open>i\<close>.
\<close>

definition reassignReadIds :: "read_set \<Rightarrow> read_set" where
  "reassignReadIds rs = map (\<lambda>(i, r). r\<lparr>ID := int i\<rparr>) (zip [0..<length rs] rs)"

text \<open>Modelled from the spec: \<^verbatim>\<open>ReadSet::add\<close> appends a read, \<^verbatim>\<open>Read::addVariant\<close> a variant.\<close>

definition add_read :: "read_set \<Rightarrow> read \<Rightarrow> read_set" where
  "add_read rs r = rs @ [r]"

definition addVariant :: "read \<Rightarrow> nat \<Rightarrow> nat \<Rightarrow> uint list \<Rightarrow> read" where
  "addVariant r position al qualities = r\<lparr>variants := variants r @ [(position, al, qualities)]\<rparr>"

record pedigree =
  individual_ids :: "nat list"
  triples :: "(nat \<times> nat \<times> nat) list"

definition pedigree_size :: "pedigree \<Rightarrow> nat" where
  "pedigree_size p = length (individual_ids p)"

definition triple_count :: "pedigree \<Rightarrow> nat" where
  "triple_count p = length (triples p)"

fun find_index_from :: "nat \<Rightarrow> nat list \<Rightarrow> nat \<Rightarrow> error + nat" where
  "find_index_from x [] i = Inl PreconditionViolation"
| "find_index_from x (y # ys) i = (if x = y then Inr i else find_index_from x ys (Suc i))"

definition id_to_index :: "pedigree \<Rightarrow> nat \<Rightarrow> error + nat" where
  "id_to_index p x = find_index_from x (individual_ids p) 0"

definition index_to_id :: "pedigree \<Rightarrow> nat \<Rightarrow> error + nat" where
  "index_to_id p i = at_ub (individual_ids p) i"

text \<open>
  \<^verbatim>\<open>PedigreePartitions(pedigree, inheritance_idx, ploidy)\<close>: a pure function object,
  determined by its constructor arguments.
\<close>

datatype pedigree_partitions = PedigreePartitions pedigree nat uint

text \<open>
  Modelled from the spec: the Gray-code iterator of a \<^verbatim>\<open>ColumnIndexingScheme\<close>
  (section 4.2).  The iterator is the finite sequence of the positions it visits; each
  position reports what \<^verbatim>\<open>advance\<close> returned (\<open>bit_changed\<close> is negative when the
  iterator signals "set fresh"), the full partitioning, the flat index and its two
  projections.
\<close>

record iterator_position =
  bit_changed :: int
  partition_changed :: int
  get_partition :: uint
  get_index :: uint
  get_backward_projection :: uint
  get_forward_projection :: uint

text \<open>
  Modelled from the spec: \<^verbatim>\<open>ColumnIndexingScheme\<close> (section 4.2) as the values its
  interface exposes.
\<close>

record column_indexing_scheme =
  get_read_ids :: "nat list"
  column_size :: nat
  forward_projection_size :: nat
  get_iterator :: "iterator_position list"
  index_backward_projection :: "uint \<Rightarrow> uint"

text \<open>
  The collaborators of the engine that are out of its scope (section 1) are parameters
  of the model: how the column reader cuts a read set into columns, how an indexing
  scheme is constructed and linked to its successor, and the column cost computer with
  its state \<open>'cc\<close>.
\<close>

record 'cc collaborators =
  column_entries :: "read_set \<Rightarrow> nat list \<Rightarrow> entry list list"
  new_ColumnIndexingScheme ::
    "column_indexing_scheme option \<Rightarrow> nat list \<Rightarrow> uint \<Rightarrow> column_indexing_scheme"
  set_next_column :: "column_indexing_scheme \<Rightarrow> column_indexing_scheme \<Rightarrow> column_indexing_scheme"
  new_PedigreeColumnCostComputer ::
    "entry list \<Rightarrow> nat \<Rightarrow> nat list \<Rightarrow> pedigree \<Rightarrow> pedigree_partitions \<Rightarrow> bool \<Rightarrow> uint \<Rightarrow> 'cc"
  set_partitioning :: "'cc \<Rightarrow> uint \<Rightarrow> 'cc"
  update_partitioning :: "'cc \<Rightarrow> int \<Rightarrow> int \<Rightarrow> 'cc"
  get_cost :: "'cc \<Rightarrow> uint"
  get_alleles :: "'cc \<Rightarrow> nat list list"

text \<open>
  Modelled from the spec: the column iterator (\<^verbatim>\<open>input_column_iterator\<close>), a cursor \<open>n\<close>
  into the sequence of columns together with the positions of the columns.
\<close>

record column_iterator =
  columns :: "entry list list"
  positions :: "nat list"
  n :: nat

definition get_column_count :: "column_iterator \<Rightarrow> nat" where
  "get_column_count it = length (columns it)"

definition jump_to_column :: "column_iterator \<Rightarrow> nat \<Rightarrow> column_iterator" where
  "jump_to_column it i = it\<lparr>n := i\<rparr>"

definition has_next :: "column_iterator \<Rightarrow> bool" where
  "has_next it = (n it < length (columns it))"

definition get_next :: "column_iterator \<Rightarrow> error + (entry list \<times> column_iterator)" where
  "get_next it = (if has_next it then Inr (columns it ! n it, it\<lparr>n := Suc (n it)\<rparr>)
                  else Inl Undefined)"

section \<open>The DP table\<close>

record index_and_inheritance_t =
  index :: uint
  inheritance_value :: uint

text \<open>The members of \<^verbatim>\<open>PedigreeDPTable\<close>; a null pointer is \<open>None\<close>.\<close>

record PedigreeDPTable =
  read_set :: read_set
  recombcost :: "uint list"
  pedigree :: pedigree
  ploidy :: uint
  distrust_genotypes :: bool
  optimal_score :: uint
  optimal_score_index :: uint
  optimal_transmission_value :: uint
  previous_transmission_value :: uint
  input_column_iterator :: column_iterator
  allele_counts :: "uint list"
  pedigree_partitions :: "pedigree_partitions list"
  read_sources :: "nat list"
  read_to_partition :: "nat \<Rightarrow> uint option"
  projection_column_table :: "vector2d option list"
  index_backtrace_table :: "vector2d option list"
  transmission_backtrace_table :: "vector2d option list"
  indexers :: "column_indexing_scheme option list"
  index_path :: "index_and_inheritance_t list"

text \<open>\<^verbatim>\<open>extract_read_ids\<close> (lines 61--67).\<close>

definition extract_read_ids :: "entry list \<Rightarrow> nat list" where
  "extract_read_ids entries = map read_id entries"

text \<open>
  \<^verbatim>\<open>clear_table\<close> (lines 79--93).  The helper \<^verbatim>\<open>init(v, size)\<close> of the header frees
  what \<open>v\<close> holds and leaves \<open>size\<close> null pointers.
\<close>

definition clear_table :: "PedigreeDPTable \<Rightarrow> PedigreeDPTable" where
  "clear_table st =
     (let column_count = get_column_count (input_column_iterator st)
      in st\<lparr>projection_column_table := replicate column_count None,
            index_backtrace_table := replicate column_count None,
            transmission_backtrace_table := replicate column_count None,
            indexers := replicate column_count None,
            index_path := [],
            optimal_score := uint_max,
            optimal_score_index := 0,
            optimal_transmission_value := 0,
            previous_transmission_value := 0\<rparr>)"

section \<open>\<^verbatim>\<open>compute_column\<close>\<close>

text \<open>
  \<^verbatim>\<open>unsigned int transmission_configurations = std::pow(4, triple_count)\<close>.  From 16
  triples on the power does not fit the \<^verbatim>\<open>unsigned int\<close> and the conversion is
  undefined.
\<close>

definition transmission_configurations :: "pedigree \<Rightarrow> error + nat" where
  "transmission_configurations p =
     (if triple_count p < 16 then Inr (4 ^ triple_count p) else Inl Undefined)"

text \<open>Lines 337--339: one cost computer per transmission vector.\<close>

fun new_cost_computers ::
  "'cc collaborators \<Rightarrow> PedigreeDPTable \<Rightarrow> entry list \<Rightarrow> nat \<Rightarrow> nat list \<Rightarrow> error + 'cc list" where
  "new_cost_computers env st col column_index [] = Inr []"
| "new_cost_computers env st col column_index (i # is) =
     bind_r (at_ub (pedigree_partitions st) i) (\<lambda>pp.
     bind_r (at_chk (allele_counts st) column_index) (\<lambda>ac.
     bind_r (new_cost_computers env st col column_index is) (\<lambda>ccs.
       Inr (new_PedigreeColumnCostComputer env col column_index (read_sources st)
              (pedigree st) pp (distrust_genotypes st) ac # ccs))))"

text \<open>
  Lines 368--404: for every transmission vector \<open>i\<close> the cost of the current cell, the
  minimum over the predecessors, the entry of the DP column and the minimising
  predecessor.  The flag is \<^verbatim>\<open>found_valid_transmission_vector\<close>.
\<close>

fun transmission_loop ::
  "'cc collaborators \<Rightarrow> uint list \<Rightarrow> nat \<Rightarrow> vector2d option \<Rightarrow> nat \<Rightarrow> nat \<Rightarrow> nat
     \<Rightarrow> 'cc list \<Rightarrow> nat list \<Rightarrow> vector2d \<times> uint list \<times> bool
     \<Rightarrow> error + (vector2d \<times> uint list \<times> bool)" where
  "transmission_loop env rcs c prev bpi current_index T ccs [] acc = Inr acc"
| "transmission_loop env rcs c prev bpi current_index T ccs (i # is)
       (dp_column, min_recomb_index, found) =
     bind_r (at_ub ccs i) (\<lambda>cc.
       let current_cost = get_cost env cc
       in bind_r (predecessor_loop rcs c prev bpi current_cost i [0..<T] (uint_max, 0))
            (\<lambda>(mn, min_index).
          bind_r (v2_set dp_column current_index i mn) (\<lambda>dp_column'.
            transmission_loop env rcs c prev bpi current_index T ccs is
              (dp_column', min_recomb_index[i := of_nat min_index],
               found \<or> current_cost < uint_max))))"

text \<open>
  Lines 412--419 (last column): the running optimum
  \<open>(optimal_score, optimal_score_index, optimal_transmission_value,
  previous_transmission_value)\<close>.
\<close>

type_synonym optimum = "uint \<times> uint \<times> uint \<times> uint"

fun optimum_loop ::
  "vector2d \<Rightarrow> nat \<Rightarrow> uint \<Rightarrow> uint list \<Rightarrow> nat list \<Rightarrow> optimum \<Rightarrow> error + optimum" where
  "optimum_loop dp_column current_index it_idx min_recomb_index [] opt = Inr opt"
| "optimum_loop dp_column current_index it_idx min_recomb_index (i # is)
       (score, score_index, transmission_value, previous_value) =
     bind_r (v2_at dp_column current_index i) (\<lambda>d.
       if d < score
       then bind_r (at_ub min_recomb_index i) (\<lambda>m.
              optimum_loop dp_column current_index it_idx min_recomb_index is
                (d, it_idx, of_nat i, m))
       else optimum_loop dp_column current_index it_idx min_recomb_index is
              (score, score_index, transmission_value, previous_value))"

text \<open>
  Lines 421--429 (not the last column): relaxation of the forward projection slot of
  the tables \<open>(current_projection_column, index_backtrace_column,
  transmission_backtrace_column)\<close>.
\<close>

type_synonym column_tables = "vector2d \<times> vector2d \<times> vector2d"

fun projection_loop ::
  "vector2d \<Rightarrow> nat \<Rightarrow> nat \<Rightarrow> uint \<Rightarrow> uint list \<Rightarrow> nat list \<Rightarrow> column_tables
     \<Rightarrow> error + column_tables" where
  "projection_loop dp_column current_index forward_index it_idx min_recomb_index [] tabs =
     Inr tabs"
| "projection_loop dp_column current_index forward_index it_idx min_recomb_index (i # is)
       (current_projection_column, index_backtrace_column, transmission_backtrace_column) =
     bind_r (v2_at dp_column current_index i) (\<lambda>d.
     bind_r (v2_at current_projection_column forward_index i) (\<lambda>p.
       if d < p
       then bind_r (v2_set current_projection_column forward_index i d) (\<lambda>pc.
            bind_r (v2_set index_backtrace_column forward_index i it_idx) (\<lambda>ib.
            bind_r (at_ub min_recomb_index i) (\<lambda>m.
            bind_r (v2_set transmission_backtrace_column forward_index i m) (\<lambda>tb.
              projection_loop dp_column current_index forward_index it_idx min_recomb_index is
                (pc, ib, tb)))))
       else projection_loop dp_column current_index forward_index it_idx min_recomb_index is
              (current_projection_column, index_backtrace_column,
               transmission_backtrace_column)))"

text \<open>Lines 344--355: the delta of the iterator applied to every cost computer.\<close>

definition advance_cost_computers ::
  "'cc collaborators \<Rightarrow> iterator_position \<Rightarrow> 'cc list \<Rightarrow> 'cc list" where
  "advance_cost_computers env s ccs =
     (if bit_changed s \<ge> 0
      then map (\<lambda>cc. update_partitioning env cc (bit_changed s) (partition_changed s)) ccs
      else map (\<lambda>cc. set_partitioning env cc (get_partition s)) ccs)"

text \<open>Lines 344--430: the body of the loop over the partitionings, at position \<open>s\<close>.\<close>

definition process_position ::
  "'cc collaborators \<Rightarrow> uint list \<Rightarrow> nat \<Rightarrow> vector2d option \<Rightarrow> nat \<Rightarrow> iterator_position
     \<Rightarrow> 'cc list \<times> vector2d \<times> column_tables option \<times> optimum
     \<Rightarrow> error + ('cc list \<times> vector2d \<times> column_tables option \<times> optimum)" where
  "process_position env rcs c prev T s acc =
     (case acc of (cost_computers, dp_column, tabs, opt) \<Rightarrow>
      let ccs = advance_cost_computers env s cost_computers;
          backward_projection_index = (if c > 0 then unat (get_backward_projection s) else 0);
          current_index = unat (get_index s)
      in bind_r (transmission_loop env rcs c prev backward_projection_index current_index T
                   ccs [0..<T] (dp_column, replicate T 0, False))
           (\<lambda>(dp, min_recomb_index, found_valid_transmission_vector).
              if \<not> found_valid_transmission_vector then Inl MendelianConflict
              else (case tabs of
                      None \<Rightarrow>
                        bind_r (optimum_loop dp current_index (get_index s) min_recomb_index
                                  [0..<T] opt)
                          (\<lambda>opt'. Inr (ccs, dp, None, opt'))
                    | Some t \<Rightarrow>
                        bind_r (projection_loop dp current_index
                                  (unat (get_forward_projection s)) (get_index s)
                                  min_recomb_index [0..<T] t)
                          (\<lambda>t'. Inr (ccs, dp, Some t', opt)))))"

fun column_walk ::
  "'cc collaborators \<Rightarrow> uint list \<Rightarrow> nat \<Rightarrow> vector2d option \<Rightarrow> nat \<Rightarrow> iterator_position list
     \<Rightarrow> 'cc list \<times> vector2d \<times> column_tables option \<times> optimum
     \<Rightarrow> error + ('cc list \<times> vector2d \<times> column_tables option \<times> optimum)" where
  "column_walk env rcs c prev T [] acc = Inr acc"
| "column_walk env rcs c prev T (s # ss) acc =
     bind_r (process_position env rcs c prev T s acc) (column_walk env rcs c prev T ss)"

text \<open>Lines 434--438: the computed tables are stored unless this is the last column.\<close>

definition store_tables ::
  "PedigreeDPTable \<Rightarrow> nat \<Rightarrow> column_tables option \<Rightarrow> PedigreeDPTable" where
  "store_tables st column_index tabs =
     (case tabs of
        None \<Rightarrow> st
      | Some (current_projection_column, index_backtrace_column,
              transmission_backtrace_column) \<Rightarrow>
          st\<lparr>index_backtrace_table :=
               (index_backtrace_table st)[column_index := Some index_backtrace_column],
             transmission_backtrace_table :=
               (transmission_backtrace_table st)
                 [column_index := Some transmission_backtrace_column],
             projection_column_table :=
               (projection_column_table st)[column_index := Some current_projection_column]\<rparr>)"

definition set_optimum :: "PedigreeDPTable \<Rightarrow> optimum \<Rightarrow> PedigreeDPTable" where
  "set_optimum st opt =
     (case opt of (score, score_index, transmission_value, previous_value) \<Rightarrow>
        st\<lparr>optimal_score := score, optimal_score_index := score_index,
           optimal_transmission_value := transmission_value,
           previous_transmission_value := previous_value\<rparr>)"

definition get_optimum :: "PedigreeDPTable \<Rightarrow> optimum" where
  "get_optimum st = (optimal_score st, optimal_score_index st, optimal_transmission_value st,
                     previous_transmission_value st)"

text \<open>
  Lines 296--299: the column is the one the caller provided; when there is none (a null
  pointer) it is fetched from the column iterator.
\<close>

definition fetch_column ::
  "column_iterator \<Rightarrow> nat \<Rightarrow> entry list option \<Rightarrow> error + (entry list \<times> column_iterator)" where
  "fetch_column it column_index current_input_column =
     (case current_input_column of
        Some col \<Rightarrow> Inr (col, it)
      | None \<Rightarrow> get_next (jump_to_column it column_index))"

text \<open>Lines 305--308: the projection column of the previous column, null for column 0.\<close>

definition previous_projection :: "PedigreeDPTable \<Rightarrow> nat \<Rightarrow> error + vector2d option" where
  "previous_projection st column_index =
     (if column_index > 0 then at_ub (projection_column_table st) (column_index - 1)
      else Inr None)"

text \<open>
  Lines 312--331: the three tables of the column, every cell the sentinel; null
  pointers for the last column.
\<close>

definition fresh_tables :: "nat \<Rightarrow> nat \<Rightarrow> nat \<Rightarrow> nat \<Rightarrow> column_tables option" where
  "fresh_tables column_index column_count fps T =
     (if column_index + 1 < column_count
      then Some (Vector2D fps T uint_max, Vector2D fps T uint_max, Vector2D fps T uint_max)
      else None)"

text \<open>
  Lines 301--431: the cost computers are created and the iterator of the column's
  indexer is walked through, from the empty DP column, the fresh tables and the
  optimum found so far.  The result is what the walk leaves in the tables (null for the
  last column) and in the optimum.
\<close>

definition walk_column ::
  "'cc collaborators \<Rightarrow> PedigreeDPTable \<Rightarrow> nat \<Rightarrow> entry list \<Rightarrow> vector2d option
     \<Rightarrow> column_indexing_scheme \<Rightarrow> nat \<Rightarrow> optimum
     \<Rightarrow> error + (column_tables option \<times> optimum)" where
  "walk_column env st column_index col previous_projection_column current_indexer T opt =
     bind_r (new_cost_computers env st col column_index [0..<T]) (\<lambda>cost_computers.
     bind_r (column_walk env (recombcost st) column_index previous_projection_column T
               (get_iterator current_indexer)
               (cost_computers,
                Vector2D (column_size current_indexer) T 0,
                fresh_tables column_index (get_column_count (input_column_iterator st))
                  (forward_projection_size current_indexer) T,
                opt))
       (\<lambda>(ccs, dp, tabs, opt'). Inr (tabs, opt')))"

text \<open>
  \<^verbatim>\<open>compute_column\<close> (lines 279--439).
\<close>

definition compute_column ::
  "'cc collaborators \<Rightarrow> PedigreeDPTable \<Rightarrow> nat \<Rightarrow> entry list option \<Rightarrow> error + PedigreeDPTable" where
  "compute_column env st column_index current_input_column =
     (if \<not> column_index < get_column_count (input_column_iterator st)
      then Inl InvariantViolation
      else bind_r (at_ub (projection_column_table st) column_index) (\<lambda>existing.
        case existing of
          Some _ \<Rightarrow>
            bind_r (at_ub (index_backtrace_table st) column_index) (\<lambda>ib.
            bind_r (at_ub (transmission_backtrace_table st) column_index) (\<lambda>tb.
              if ib = None \<or> tb = None then Inl InvariantViolation else Inr st))
        | None \<Rightarrow>
            bind_r (at_ub (indexers st) column_index) (\<lambda>ci.
              case ci of
                None \<Rightarrow> Inl InvariantViolation
              | Some current_indexer \<Rightarrow>
                  bind_r (transmission_configurations (pedigree st)) (\<lambda>T.
                  bind_r (fetch_column (input_column_iterator st) column_index
                            current_input_column) (\<lambda>(col, it).
                  bind_r (previous_projection st column_index)
                    (\<lambda>previous_projection_column.
                  bind_r (walk_column env st column_index col previous_projection_column
                            current_indexer T (get_optimum st))
                    (\<lambda>(tabs, opt).
                       Inr (store_tables
                              (set_optimum (st\<lparr>input_column_iterator := it\<rparr>) opt)
                              column_index tabs))))))))"

section \<open>\<^verbatim>\<open>compute_table\<close>\<close>

text \<open>
  \<^verbatim>\<open>(size_t)sqrt(column_count)\<close>: the largest \<open>m\<close> with \<open>m * m \<le> column_count\<close>.
\<close>

fun sqrt_search :: "nat \<Rightarrow> nat \<Rightarrow> nat" where
  "sqrt_search x 0 = 0"
| "sqrt_search x (Suc m) = (if Suc m * Suc m \<le> x then Suc m else sqrt_search x m)"

definition floor_sqrt :: "nat \<Rightarrow> nat" where
  "floor_sqrt x = sqrt_search x x"

text \<open>Deleting the three tables of a column and resetting the pointers to null.\<close>

definition delete_column :: "PedigreeDPTable \<Rightarrow> nat \<Rightarrow> PedigreeDPTable" where
  "delete_column st j =
     st\<lparr>index_backtrace_table := (index_backtrace_table st)[j := None],
        transmission_backtrace_table := (transmission_backtrace_table st)[j := None],
        projection_column_table := (projection_column_table st)[j := None]\<rparr>"

text \<open>
  Lines 174--186: the next column is fetched ahead of time and gets its indexer, which
  is constructed from the current indexer; the current indexer is linked to it.  The
  pointer \<^verbatim>\<open>current_indexer\<close> is the one stored in \<^verbatim>\<open>indexers[column_index]\<close>, so
  \<^verbatim>\<open>set_next_column\<close> changes that entry.  The result is the table and the new values of
  \<open>(next_input_column, next_read_ids, next_indexer)\<close>.
\<close>

type_synonym forward_state =
  "PedigreeDPTable \<times> entry list option \<times> nat list option \<times> column_indexing_scheme option"

definition peek_next_column ::
  "'cc collaborators \<Rightarrow> nat \<Rightarrow> PedigreeDPTable \<Rightarrow> column_indexing_scheme option
     \<Rightarrow> error + forward_state" where
  "peek_next_column env column_index st current_indexer =
     (if has_next (input_column_iterator st)
      then bind_r (get_next (input_column_iterator st)) (\<lambda>(col, it).
             case current_indexer of
               None \<Rightarrow> Inl Undefined
             | Some ci \<Rightarrow>
                 if column_index + 1 < length (indexers st)
                 then Inr (st\<lparr>input_column_iterator := it,
                             indexers := (indexers st)
                               [column_index :=
                                  Some (set_next_column env ci
                                          (new_ColumnIndexingScheme env current_indexer
                                             (extract_read_ids col) (ploidy st))),
                                column_index + 1 :=
                                  Some (new_ColumnIndexingScheme env current_indexer
                                          (extract_read_ids col) (ploidy st))]\<rparr>,
                           Some col, Some (extract_read_ids col),
                           Some (new_ColumnIndexingScheme env current_indexer
                                   (extract_read_ids col) (ploidy st)))
                 else Inl Undefined)
      else Inr (st, None, None, None))"

text \<open>Lines 190--198: the tables of the previous column are deleted unless it is stored.\<close>

definition drop_previous_column :: "nat \<Rightarrow> nat \<Rightarrow> PedigreeDPTable \<Rightarrow> PedigreeDPTable" where
  "drop_previous_column k column_index st =
     (if k > 1 \<and> column_index > 0 \<and> (column_index - 1) mod k \<noteq> 0
      then delete_column st (column_index - 1) else st)"

text \<open>
  Lines 170--198, one round of the forward pass.  The loop carries the table and the
  three look-ahead variables \<open>(next_input_column, next_read_ids, next_indexer)\<close>.
\<close>

definition forward_step ::
  "'cc collaborators \<Rightarrow> nat \<Rightarrow> nat \<Rightarrow> forward_state \<Rightarrow> error + forward_state" where
  "forward_step env k column_index acc =
     (case acc of (st, next_input_column, next_read_ids, next_indexer) \<Rightarrow>
        bind_r (peek_next_column env column_index st next_indexer)
          (\<lambda>(st1, nic, nri, nix).
             bind_r (compute_column env st1 column_index next_input_column) (\<lambda>st2.
               Inr (drop_previous_column k column_index st2, nic, nri, nix))))"

fun forward_loop ::
  "'cc collaborators \<Rightarrow> nat \<Rightarrow> nat list \<Rightarrow> forward_state \<Rightarrow> error + forward_state" where
  "forward_loop env k [] acc = Inr acc"
| "forward_loop env k (column_index # cs) acc =
     bind_r (forward_step env k column_index acc) (forward_loop env k cs)"

text \<open>Lines 218--220: recomputation of dropped columns.\<close>

fun recompute_loop ::
  "'cc collaborators \<Rightarrow> nat list \<Rightarrow> PedigreeDPTable \<Rightarrow> error + PedigreeDPTable" where
  "recompute_loop env [] st = Inr st"
| "recompute_loop env (j # js) st =
     bind_r (compute_column env st j None) (recompute_loop env js)"

text \<open>Lines 253--261: freeing a block of tables, each asserted to be present.\<close>

fun free_loop :: "nat list \<Rightarrow> PedigreeDPTable \<Rightarrow> error + PedigreeDPTable" where
  "free_loop [] st = Inr st"
| "free_loop (j # js) st =
     bind_r (at_ub (projection_column_table st) j) (\<lambda>p.
       if p = None then Inl InvariantViolation else free_loop js (delete_column st j))"

text \<open>
  Lines 213--221: the tables of column \<open>i - 1\<close> are made available.  When they were
  dropped, the columns after the last stored column \<open>(i - 1) / k * k\<close> are computed
  again.
\<close>

definition ensure_column ::
  "'cc collaborators \<Rightarrow> nat \<Rightarrow> nat \<Rightarrow> PedigreeDPTable \<Rightarrow> error + PedigreeDPTable" where
  "ensure_column env k i st =
     bind_r (at_ub (projection_column_table st) (i - 1)) (\<lambda>p.
       if p = None
       then (if k = 0 then Inl Undefined
             else bind_r (at_ub (projection_column_table st) ((i - 1) div k * k)) (\<lambda>pj.
                    if pj = None then Inl InvariantViolation
                    else recompute_loop env [(i - 1) div k * k + 1..<i] st))
       else Inr st)"

text \<open>
  Lines 223--250: from the entry \<open>v\<close> chosen for column \<open>i\<close> and
  \<^verbatim>\<open>prev_inheritance_value\<close> to the entry for column \<open>i - 1\<close>, which is written to the
  index path, and the new \<^verbatim>\<open>prev_inheritance_value\<close>.  The second table is read at
  \<^verbatim>\<open>v.inheritance_value\<close> after \<open>v\<close> was overwritten.
\<close>

definition backtrace_entry ::
  "PedigreeDPTable \<Rightarrow> nat \<Rightarrow> index_and_inheritance_t \<Rightarrow> uint
     \<Rightarrow> error + (PedigreeDPTable \<times> index_and_inheritance_t \<times> uint)" where
  "backtrace_entry st i v prev_inheritance_value =
     bind_r (at_ub (indexers st) i) (\<lambda>ix.
       case ix of
         None \<Rightarrow> Inl Undefined
       | Some indexer \<Rightarrow>
           bind_r (at_ub (index_backtrace_table st) (i - 1)) (\<lambda>ibt.
             case ibt of
               None \<Rightarrow> Inl Undefined
             | Some ib \<Rightarrow>
                 bind_r (v2_at ib (unat (index_backward_projection indexer (index v)))
                           (unat prev_inheritance_value)) (\<lambda>idx.
                 bind_r (at_ub (transmission_backtrace_table st) (i - 1)) (\<lambda>tbt.
                   case tbt of
                     None \<Rightarrow> Inl Undefined
                   | Some tb \<Rightarrow>
                       bind_r (v2_at tb (unat (index_backward_projection indexer (index v)))
                                 (unat (inheritance_value
                                    \<lparr>index = idx,
                                     inheritance_value = prev_inheritance_value\<rparr>)))
                         (\<lambda>prev'.
                            if \<not> i - 1 < length (index_path st) then Inl Undefined
                            else Inr (st\<lparr>index_path := (index_path st)
                                          [i - 1 := \<lparr>index = idx,
                                                     inheritance_value =
                                                       prev_inheritance_value\<rparr>]\<rparr>,
                                      \<lparr>index = idx,
                                       inheritance_value = prev_inheritance_value\<rparr>,
                                      prev'))))))"

text \<open>Lines 252--262: at a multiple of \<open>k\<close> the block of tables above is freed.\<close>

definition free_block :: "nat \<Rightarrow> nat \<Rightarrow> PedigreeDPTable \<Rightarrow> error + PedigreeDPTable" where
  "free_block k i st =
     (if k = 0 then Inl Undefined
      else if i mod k = 0
      then free_loop [i..<min (i + k) (get_column_count (input_column_iterator st) - 1)] st
      else Inr st)"

text \<open>
  Lines 213--262, one round of the backtrace at \<open>i\<close>: the loop carries the table, the
  entry \<open>v\<close> chosen for column \<open>i\<close> and \<^verbatim>\<open>prev_inheritance_value\<close>.
\<close>

type_synonym backtrace_state = "PedigreeDPTable \<times> index_and_inheritance_t \<times> uint"

definition backtrace_step ::
  "'cc collaborators \<Rightarrow> nat \<Rightarrow> nat \<Rightarrow> backtrace_state \<Rightarrow> error + backtrace_state" where
  "backtrace_step env k i acc =
     (case acc of (st, v, prev_inheritance_value) \<Rightarrow>
        bind_r (ensure_column env k i st) (\<lambda>st1.
        bind_r (backtrace_entry st1 i v prev_inheritance_value) (\<lambda>(st2, v', prev').
        bind_r (free_block k i st2) (\<lambda>st3. Inr (st3, v', prev')))))"

fun backtrace_loop ::
  "'cc collaborators \<Rightarrow> nat \<Rightarrow> nat \<Rightarrow> backtrace_state \<Rightarrow> error + backtrace_state" where
  "backtrace_loop env k 0 acc = Inr acc"
| "backtrace_loop env k (Suc m) acc =
     bind_r (backtrace_step env k (Suc m) acc) (backtrace_loop env k m)"

text \<open>Lines 158--165: the first column is fetched ahead of time and gets its indexer.\<close>

definition first_column ::
  "'cc collaborators \<Rightarrow> PedigreeDPTable \<Rightarrow> error + forward_state" where
  "first_column env st =
     bind_r (get_next (jump_to_column (input_column_iterator st) 0)) (\<lambda>(col, it).
       let next_read_ids = extract_read_ids col;
           next_indexer = new_ColumnIndexingScheme env None next_read_ids (ploidy st)
       in if \<not> 0 < length (indexers st) then Inl Undefined
          else Inr (st\<lparr>input_column_iterator := it,
                      indexers := (indexers st)[0 := Some next_indexer]\<rparr>,
                    Some col, Some next_read_ids, Some next_indexer))"

text \<open>Lines 201--263: the backtrace, from the table left by the forward pass.\<close>

definition backtrace ::
  "'cc collaborators \<Rightarrow> nat \<Rightarrow> PedigreeDPTable \<Rightarrow> error + PedigreeDPTable" where
  "backtrace env k st =
     (let size = length (indexers st);
          v = \<lparr>index = optimal_score_index st,
               inheritance_value = optimal_transmission_value st\<rparr>
      in if size = 0 then Inl Undefined
         else bind_r (backtrace_loop env k (size - 1)
                        (st\<lparr>index_path :=
                              (replicate size \<lparr>index = 0, inheritance_value = 0\<rparr>)
                                [size - 1 := v]\<rparr>,
                         v, previous_transmission_value st))
                (\<lambda>(st', v', prev'). Inr st'))"

text \<open>\<^verbatim>\<open>compute_table\<close> (lines 148--264).\<close>

definition compute_table ::
  "'cc collaborators \<Rightarrow> PedigreeDPTable \<Rightarrow> error + PedigreeDPTable" where
  "compute_table env st0 =
     (let st = clear_table st0;
          column_count = get_column_count (input_column_iterator st)
      in if column_count = 0
         then Inr (st\<lparr>optimal_score := 0, optimal_score_index := 0\<rparr>)
         else bind_r (first_column env st) (\<lambda>fs.
                let k = floor_sqrt column_count
                in bind_r (forward_loop env k [0..<column_count] fs)
                     (\<lambda>(st', nic, nri, nix). backtrace env k st')))"

section \<open>The precomputed partitioning\<close>

text \<open>
  Lines 120--126: the partitioning of the reads of a column, packed to the base
  \<open>ploidy\<close> in \<^verbatim>\<open>unsigned int\<close> arithmetic.  \<^verbatim>\<open>read_to_partition[id]\<close> on a map
  inserts the value 0 for a key that is missing.
\<close>

definition lookup_or_insert :: "(nat \<Rightarrow> uint option) \<Rightarrow> nat \<Rightarrow> uint \<times> (nat \<Rightarrow> uint option)" where
  "lookup_or_insert m x = (case m x of None \<Rightarrow> (0, m(x \<mapsto> 0)) | Some y \<Rightarrow> (y, m))"

fun partitioning_loop ::
  "uint \<Rightarrow> nat list \<Rightarrow> uint \<times> uint \<times> (nat \<Rightarrow> uint option) \<Rightarrow> uint \<times> uint \<times> (nat \<Rightarrow> uint option)"
  where
  "partitioning_loop pl [] acc = acc"
| "partitioning_loop pl (x # ids) (partitioning, offset, rtp) =
     (case lookup_or_insert rtp x of (p, rtp') \<Rightarrow>
        partitioning_loop pl ids (partitioning + p * offset, offset * pl, rtp'))"

text \<open>
  Lines 119--138: the entry of the index path for one column and its cost, with the
  inheritance pattern 0.
\<close>

definition index_path_column ::
  "'cc collaborators \<Rightarrow> nat \<Rightarrow> PedigreeDPTable \<Rightarrow> entry list \<Rightarrow> nat list
     \<Rightarrow> error + PedigreeDPTable" where
  "index_path_column env column_index st current_input_column current_read_ids =
     (case partitioning_loop (ploidy st) current_read_ids (0, 1, read_to_partition st) of
        (partitioning, offset, rtp) \<Rightarrow>
          if \<not> column_index < length (index_path st) then Inl Undefined
          else
            bind_r (at_ub (pedigree_partitions st)
                      (unat (inheritance_value
                         \<lparr>index = partitioning, inheritance_value = 0\<rparr>))) (\<lambda>pp.
            bind_r (at_chk (allele_counts st) column_index) (\<lambda>ac.
              Inr (st\<lparr>read_to_partition := rtp,
                      index_path := (index_path st)
                        [column_index := \<lparr>index = partitioning, inheritance_value = 0\<rparr>],
                      optimal_score := optimal_score st +
                        get_cost env
                          (set_partitioning env
                             (new_PedigreeColumnCostComputer env current_input_column
                                column_index (read_sources st) (pedigree st) pp
                                (distrust_genotypes st) ac)
                             (index \<lparr>index = partitioning, inheritance_value = 0\<rparr>))\<rparr>))))"

text \<open>Lines 118--144: the loop over the columns.\<close>

fun index_path_loop ::
  "'cc collaborators \<Rightarrow> nat list \<Rightarrow> PedigreeDPTable \<times> entry list \<times> nat list
     \<Rightarrow> error + (PedigreeDPTable \<times> entry list \<times> nat list)" where
  "index_path_loop env [] acc = Inr acc"
| "index_path_loop env (column_index # cs) (st, current_input_column, current_read_ids) =
     bind_r (index_path_column env column_index st current_input_column current_read_ids)
       (\<lambda>st2.
          if has_next (input_column_iterator st2)
          then bind_r (get_next (input_column_iterator st2)) (\<lambda>(col, it).
                 index_path_loop env cs
                   (st2\<lparr>input_column_iterator := it\<rparr>, col, extract_read_ids col))
          else index_path_loop env cs (st2, current_input_column, current_read_ids))"

text \<open>\<^verbatim>\<open>set_index_path\<close> (lines 96--145); the output to \<^verbatim>\<open>cout\<close> is left out.\<close>

definition set_index_path ::
  "'cc collaborators \<Rightarrow> PedigreeDPTable \<Rightarrow> error + PedigreeDPTable" where
  "set_index_path env st0 =
     (let st = (clear_table st0)\<lparr>optimal_score := 0, optimal_score_index := 0\<rparr>
      in if get_column_count (input_column_iterator st) = 0 then Inr st
         else bind_r (get_next (jump_to_column (input_column_iterator st) 0)) (\<lambda>(col, it).
                let current_read_ids = extract_read_ids col;
                    column_count = get_column_count it;
                    st1 = st\<lparr>input_column_iterator := it,
                             index_path :=
                               replicate column_count \<lparr>index = 0, inheritance_value = 0\<rparr>\<rparr>
                in bind_r (index_path_loop env [0..<column_count] (st1, col, current_read_ids))
                     (\<lambda>(st2, col', ids'). Inr st2)))"

section \<open>The constructor\<close>

text \<open>Lines 35--37: the individual index of every read's sample.\<close>

fun read_sources_loop :: "pedigree \<Rightarrow> read list \<Rightarrow> error + nat list" where
  "read_sources_loop p [] = Inr []"
| "read_sources_loop p (r # rs) =
     bind_r (id_to_index p (sample_id r)) (\<lambda>s.
     bind_r (read_sources_loop p rs) (\<lambda>srcs. Inr (s # srcs)))"

text \<open>Lines 43--45: the map from read ID to the assigned partition.\<close>

fun read_to_partition_loop ::
  "read list \<Rightarrow> uint list \<Rightarrow> nat list \<Rightarrow> (nat \<Rightarrow> uint option) \<Rightarrow> error + (nat \<Rightarrow> uint option)" where
  "read_to_partition_loop rs precomputed_partitioning [] m = Inr m"
| "read_to_partition_loop rs precomputed_partitioning (i # is) m =
     bind_r (at_ub rs i) (\<lambda>r.
     bind_r (at_ub precomputed_partitioning i) (\<lambda>p.
       read_to_partition_loop rs precomputed_partitioning is (m(nat (ID r) \<mapsto> p))))"

text \<open>
  The constructor (lines 16--48).  The read set is the caller's object: the
  constructor returns it as it leaves it, together with the table or the error that
  ended the construction.  The column iterator reads the read set when a column is
  asked for, that is after the IDs were reassigned.
\<close>

definition new_PedigreeDPTable ::
  "'cc collaborators \<Rightarrow> read_set \<Rightarrow> uint list \<Rightarrow> pedigree \<Rightarrow> uint \<Rightarrow> bool \<Rightarrow> uint list
     \<Rightarrow> nat list \<Rightarrow> uint list option \<Rightarrow> read_set \<times> (error + PedigreeDPTable)" where
  "new_PedigreeDPTable env rs0 rcs ped pl distrust acs poss precomputed_partitioning =
     (let rs = reassignReadIds rs0;
          st = \<lparr>read_set = rs, recombcost = rcs, pedigree = ped, ploidy = pl,
                distrust_genotypes = distrust,
                optimal_score = 0, optimal_score_index = 0,
                optimal_transmission_value = 0, previous_transmission_value = 0,
                input_column_iterator =
                  \<lparr>columns = column_entries env rs poss, positions = poss, n = 0\<rparr>,
                allele_counts = acs,
                pedigree_partitions =
                  map (\<lambda>i. PedigreePartitions ped i pl) [0..<4 ^ triple_count ped],
                read_sources = [],
                read_to_partition = Map.empty,
                projection_column_table = [], index_backtrace_table = [],
                transmission_backtrace_table = [], indexers = [], index_path = []\<rparr>
      in (rs,
          bind_r (read_sources_loop ped rs) (\<lambda>srcs.
            let st' = st\<lparr>read_sources := srcs\<rparr>
            in (case precomputed_partitioning of
                  None \<Rightarrow> compute_table env st'
                | Some pp \<Rightarrow>
                    bind_r (read_to_partition_loop rs pp [0..<length rs] Map.empty) (\<lambda>m.
                      set_index_path env (st'\<lparr>read_to_partition := m\<rparr>))))))"

section \<open>\<^verbatim>\<open>get_super_reads\<close> and \<^verbatim>\<open>get_optimal_partitioning\<close>\<close>

text \<open>\<^verbatim>\<open>std::to_string\<close> on an unsigned number: its decimal digits.\<close>

fun to_string :: "nat \<Rightarrow> string" where
  "to_string x =
     (if x < 10 then [char_of (48 + x)]
      else to_string (x div 10) @ [char_of (48 + x mod 10)])"

text \<open>Lines 464--471: \<open>ploidy\<close> empty super-reads for every individual.\<close>

fun new_superreads_row :: "nat \<Rightarrow> nat \<Rightarrow> nat list \<Rightarrow> read list" where
  "new_superreads_row i sample [] = []"
| "new_superreads_row i sample (j # js) =
     \<lparr>name = ''superread_'' @ to_string j @ ''_'' @ to_string i, mapq = - 1, source_id = - 1,
      sample_id = sample, ID = - 1, variants = []\<rparr> # new_superreads_row i sample js"

fun new_superreads :: "pedigree \<Rightarrow> nat \<Rightarrow> nat list \<Rightarrow> error + read list list" where
  "new_superreads ped pl [] = Inr []"
| "new_superreads ped pl (i # is) =
     bind_r (index_to_id ped i) (\<lambda>sample.
     bind_r (new_superreads ped pl is) (\<lambda>rows.
       Inr (new_superreads_row i sample [0..<pl] # rows)))"

text \<open>Lines 489--495: the variant of column \<open>i\<close> added to each super-read of individual \<open>k\<close>.\<close>

fun haplotype_loop ::
  "nat list \<Rightarrow> nat \<Rightarrow> nat list list \<Rightarrow> nat \<Rightarrow> nat \<Rightarrow> nat list \<Rightarrow> read list list
     \<Rightarrow> error + read list list" where
  "haplotype_loop poss i population_alleles n_alleles k [] superreads = Inr superreads"
| "haplotype_loop poss i population_alleles n_alleles k (j # js) superreads =
     bind_r (at_ub population_alleles k) (\<lambda>alleles.
     bind_r (at_ub alleles j) (\<lambda>al.
       let qualities = map (\<lambda>a. if a = al then 0 else 10) [0..<n_alleles]
       in bind_r (at_ub superreads k) (\<lambda>row.
          bind_r (at_ub row j) (\<lambda>r.
          bind_r (at_chk poss i) (\<lambda>position.
            haplotype_loop poss i population_alleles n_alleles k js
              (superreads[k := row[j := addVariant r position al qualities]]))))))"

fun individuals_loop ::
  "nat list \<Rightarrow> nat \<Rightarrow> nat list list \<Rightarrow> nat \<Rightarrow> nat \<Rightarrow> nat list \<Rightarrow> read list list
     \<Rightarrow> error + read list list" where
  "individuals_loop poss i population_alleles n_alleles pl [] superreads = Inr superreads"
| "individuals_loop poss i population_alleles n_alleles pl (k # ks) superreads =
     bind_r (haplotype_loop poss i population_alleles n_alleles k [0..<pl] superreads)
       (individuals_loop poss i population_alleles n_alleles pl ks)"

text \<open>Lines 479--498: the body of the loop over the columns, for the column \<open>i\<close>.\<close>

definition column_super_reads ::
  "'cc collaborators \<Rightarrow> PedigreeDPTable \<Rightarrow> nat list \<Rightarrow> nat \<Rightarrow> entry list \<Rightarrow> read list list
     \<Rightarrow> error + (read list list \<times> uint)" where
  "column_super_reads env st poss i column superreads =
     bind_r (at_ub (index_path st) i) (\<lambda>v.
     bind_r (at_ub (pedigree_partitions st) (unat (inheritance_value v))) (\<lambda>pp.
     bind_r (at_chk (allele_counts st) i) (\<lambda>ac.
       let cost_computer =
             set_partitioning env
               (new_PedigreeColumnCostComputer env column i (read_sources st) (pedigree st) pp
                  (distrust_genotypes st) ac)
               (index v);
           population_alleles = get_alleles env cost_computer;
           n_alleles = unat ac
       in bind_r (individuals_loop poss i population_alleles n_alleles (unat (ploidy st))
                    [0..<pedigree_size (pedigree st)] superreads)
            (\<lambda>superreads'. Inr (superreads', inheritance_value v)))))"

text \<open>Lines 478--500: the loop runs as long as the column iterator has a next column.\<close>

function super_reads_loop ::
  "'cc collaborators \<Rightarrow> PedigreeDPTable \<Rightarrow> nat list
     \<Rightarrow> column_iterator \<times> nat \<times> read list list \<times> uint list
     \<Rightarrow> error + (column_iterator \<times> nat \<times> read list list \<times> uint list)" where
  "super_reads_loop env st poss (it, i, superreads, transmission_vector) =
     (if has_next it
      then (case get_next it of
              Inl e \<Rightarrow> Inl e
            | Inr (column, it') \<Rightarrow>
                (case column_super_reads env st poss i column superreads of
                   Inl e \<Rightarrow> Inl e
                 | Inr (superreads', inh) \<Rightarrow>
                     super_reads_loop env st poss
                       (it', Suc i, superreads', transmission_vector @ [inh])))
      else Inr (it, i, superreads, transmission_vector))"
  by pat_completeness auto
termination
  by (relation "measure (\<lambda>(env, st, poss, it, rest). length (columns it) - n it)")
     (auto simp: get_next_def has_next_def split: if_splits)

text \<open>Lines 502--507: the super-reads are added to the read sets of the caller.\<close>

fun add_loop :: "read_set \<Rightarrow> read list \<Rightarrow> nat list \<Rightarrow> error + read_set" where
  "add_loop rs row [] = Inr rs"
| "add_loop rs row (j # js) = bind_r (at_ub row j) (\<lambda>r. add_loop (add_read rs r) row js)"

fun output_loop ::
  "nat \<Rightarrow> read list list \<Rightarrow> nat list \<Rightarrow> read_set list \<Rightarrow> error + read_set list" where
  "output_loop pl superreads [] output_read_set = Inr output_read_set"
| "output_loop pl superreads (k # ks) output_read_set =
     bind_r (at_chk output_read_set k) (\<lambda>rs.
     bind_r (at_ub superreads k) (\<lambda>row.
     bind_r (add_loop rs row [0..<pl]) (\<lambda>rs'.
       output_loop pl superreads ks (output_read_set[k := rs']))))"

text \<open>
  \<^verbatim>\<open>get_super_reads\<close> (lines 455--508).  The result is the table (its column iterator
  has moved), the read sets of the caller and the transmission vector.
\<close>

definition get_super_reads ::
  "'cc collaborators \<Rightarrow> PedigreeDPTable \<Rightarrow> read_set list \<Rightarrow> uint list
     \<Rightarrow> error + (PedigreeDPTable \<times> read_set list \<times> uint list)" where
  "get_super_reads env st output_read_set transmission_vector0 =
     (if length output_read_set \<noteq> pedigree_size (pedigree st) then Inl InvariantViolation
      else
        let transmission_vector = [];
            it = jump_to_column (input_column_iterator st) 0;
            poss = positions it
        in bind_r (new_superreads (pedigree st) (unat (ploidy st))
                     [0..<pedigree_size (pedigree st)]) (\<lambda>superreads.
           bind_r (if index_backtrace_table st = []
                   then (if has_next it then Inl InvariantViolation
                         else Inr (it, 0, superreads, transmission_vector))
                   else super_reads_loop env st poss (it, 0, superreads, transmission_vector))
             (\<lambda>(it', i, superreads', transmission_vector').
           bind_r (output_loop (unat (ploidy st)) superreads'
                     [0..<pedigree_size (pedigree st)] output_read_set) (\<lambda>output_read_set'.
             Inr (st\<lparr>input_column_iterator := it'\<rparr>, output_read_set',
                  transmission_vector')))))"

text \<open>Lines 514--518: the digits of the index, one for every read of the column.\<close>

fun reads_loop ::
  "uint \<Rightarrow> nat list \<Rightarrow> nat list \<Rightarrow> uint \<times> uint list \<Rightarrow> error + (uint \<times> uint list)" where
  "reads_loop pl ids [] acc = Inr acc"
| "reads_loop pl ids (j # js) (idx, partitioning) =
     (if pl = 0 then Inl Undefined
      else
        let partition = idx mod pl
        in bind_r (at_chk ids j) (\<lambda>rid.
             if rid < length partitioning
             then reads_loop pl ids js (idx div pl, partitioning[rid := partition])
             else Inl OutOfRange))"

fun partitioning_columns_loop ::
  "PedigreeDPTable \<Rightarrow> nat list \<Rightarrow> uint list \<Rightarrow> error + uint list" where
  "partitioning_columns_loop st [] partitioning = Inr partitioning"
| "partitioning_columns_loop st (i # is) partitioning =
     bind_r (at_ub (index_path st) i) (\<lambda>v.
     bind_r (at_ub (indexers st) i) (\<lambda>ix.
       case ix of
         None \<Rightarrow> Inl Undefined
       | Some indexer \<Rightarrow>
           bind_r (reads_loop (ploidy st) (get_read_ids indexer)
                     [0..<length (get_read_ids indexer)] (index v, partitioning))
             (\<lambda>(idx, partitioning'). partitioning_columns_loop st is partitioning')))"

text \<open>\<^verbatim>\<open>get_optimal_partitioning\<close> (lines 510--521).\<close>

definition get_optimal_partitioning :: "PedigreeDPTable \<Rightarrow> error + uint list" where
  "get_optimal_partitioning st =
     partitioning_columns_loop st [0..<length (index_path st)]
       (replicate (length (read_set st)) 0)"

section \<open>A concrete set of collaborators\<close>

text \<open>
  The theorems below hold for every collaborator.  To run the engine on concrete inputs
  the collaborators are instantiated: every read covers every column (so both
  projections of an index are the index itself), the iterator counts through the
  indices and reports a change of the lowest digit as a delta and everything else as
  "set fresh", and the cost of a partitioning is read from a table \<open>cost\<close> given by
  column, inheritance pattern and partitioning.
\<close>

record demo_cc =
  cc_column :: nat
  cc_pattern :: nat
  cc_ploidy :: nat
  cc_individuals :: nat
  cc_partitioning :: nat

definition demo_columns :: "read_set \<Rightarrow> nat list \<Rightarrow> entry list list" where
  "demo_columns rs poss =
     map (\<lambda>p. concat (map (\<lambda>r. map (\<lambda>(q, a, qs). \<lparr>read_id = nat (ID r), allele = a, quality = length qs\<rparr>)
                                   (filter (\<lambda>(q, a, qs). q = p) (variants r))) rs)) poss"

definition demo_positions :: "nat \<Rightarrow> nat \<Rightarrow> iterator_position list" where
  "demo_positions pl sz =
     map (\<lambda>x. \<lparr>bit_changed = (if 0 < x mod pl then 0 else - 1),
               partition_changed = (if 0 < x mod pl then int (x mod pl) else - 1),
               get_partition = of_nat x, get_index = of_nat x,
               get_backward_projection = of_nat x, get_forward_projection = of_nat x\<rparr>)
       [0..<sz]"

definition demo_new_scheme ::
  "column_indexing_scheme option \<Rightarrow> nat list \<Rightarrow> uint \<Rightarrow> column_indexing_scheme" where
  "demo_new_scheme prev ids pl =
     \<lparr>get_read_ids = ids, column_size = unat pl ^ length ids,
      forward_projection_size = unat pl ^ length ids,
      get_iterator = demo_positions (unat pl) (unat pl ^ length ids),
      index_backward_projection = (\<lambda>x. x)\<rparr>"

definition demo_new_cc ::
  "entry list \<Rightarrow> nat \<Rightarrow> nat list \<Rightarrow> pedigree \<Rightarrow> pedigree_partitions \<Rightarrow> bool \<Rightarrow> uint \<Rightarrow> demo_cc" where
  "demo_new_cc col c srcs ped pp distrust ac =
     (case pp of PedigreePartitions ped' i pl \<Rightarrow>
        \<lparr>cc_column = c, cc_pattern = i, cc_ploidy = unat pl,
         cc_individuals = pedigree_size ped, cc_partitioning = 0\<rparr>)"

definition demo_update :: "demo_cc \<Rightarrow> int \<Rightarrow> int \<Rightarrow> demo_cc" where
  "demo_update cc b v =
     (let w = cc_ploidy cc ^ nat b;
          p = cc_partitioning cc;
          old = (p div w) mod cc_ploidy cc
      in cc\<lparr>cc_partitioning := p - old * w + nat v * w\<rparr>)"

definition demo_env :: "(nat \<Rightarrow> nat \<Rightarrow> nat \<Rightarrow> uint) \<Rightarrow> demo_cc collaborators" where
  "demo_env cost =
     \<lparr>column_entries = demo_columns,
      new_ColumnIndexingScheme = demo_new_scheme,
      set_next_column = (\<lambda>cur nxt. cur),
      new_PedigreeColumnCostComputer = demo_new_cc,
      set_partitioning = (\<lambda>cc p. cc\<lparr>cc_partitioning := unat p\<rparr>),
      update_partitioning = demo_update,
      get_cost = (\<lambda>cc. cost (cc_column cc) (cc_pattern cc) (cc_partitioning cc)),
      get_alleles = (\<lambda>cc. replicate (cc_individuals cc)
                        (map (\<lambda>j. (j + cc_partitioning cc) mod 2) [0..<cc_ploidy cc]))\<rparr>"

definition demo_read :: "nat list \<Rightarrow> read" where
  "demo_read poss = \<lparr>name = ''r'', mapq = 0, source_id = 0, sample_id = 7, ID = 5,
     variants = map (\<lambda>p. (p, 0, [])) poss\<rparr>"

definition solo :: pedigree where "solo = \<lparr>individual_ids = [7], triples = []\<rparr>"

definition cost1 :: "nat \<Rightarrow> nat \<Rightarrow> nat \<Rightarrow> uint" where
  "cost1 c i p = of_nat ((c + p) mod 2 + i)"

text \<open>Example inputs: reads, pedigrees and cost tables.\<close>

definition cost_prefers_one :: "nat \<Rightarrow> nat \<Rightarrow> nat \<Rightarrow> uint" where
  "cost_prefers_one c i p = (if p = 1 then 0 else 5)"


section \<open>Notions used in the statements\<close>

text \<open>
  The read \<open>r\<close> occurs in no column's list of active reads along the index path
  (the lists are those of the indexers, as \<^verbatim>\<open>get_optimal_partitioning\<close> reads them).
\<close>

definition never_active :: "PedigreeDPTable \<Rightarrow> nat \<Rightarrow> bool" where
  "never_active st r =
     list_all (\<lambda>i. case at_ub (indexers st) i of
                      Inr (Some indexer) \<Rightarrow> r \<notin> set (get_read_ids indexer)
                    | _ \<Rightarrow> True)
       [0..<length (index_path st)]"

text \<open>
  The base-\<open>ploidy\<close> packing of partition values, the first value in the lowest digit,
  in \<^verbatim>\<open>unsigned int\<close> arithmetic; the partition assigned to a read by the map
  \<^verbatim>\<open>read_to_partition\<close> (0 for a read the map does not know); the packed partitioning
  of a column.
\<close>

fun pack_partitioning :: "uint \<Rightarrow> uint list \<Rightarrow> uint" where
  "pack_partitioning pl [] = 0"
| "pack_partitioning pl (p # ps) = p + pl * pack_partitioning pl ps"

definition partition_of :: "(nat \<Rightarrow> uint option) \<Rightarrow> nat \<Rightarrow> uint" where
  "partition_of m x = (case m x of None \<Rightarrow> 0 | Some p \<Rightarrow> p)"

definition precomputed_index :: "uint \<Rightarrow> (nat \<Rightarrow> uint) \<Rightarrow> entry list \<Rightarrow> uint" where
  "precomputed_index pl assigned col = pack_partitioning pl (map assigned (extract_read_ids col))"

text \<open>
  The cost that the cost computer of column \<open>c\<close> reports for the partitioning \<open>idx\<close> under
  the inheritance pattern \<open>i\<close>.
\<close>

definition column_cost ::
  "'cc collaborators \<Rightarrow> PedigreeDPTable \<Rightarrow> nat \<Rightarrow> nat \<Rightarrow> uint \<Rightarrow> uint" where
  "column_cost env st c i idx =
     get_cost env
       (set_partitioning env
          (new_PedigreeColumnCostComputer env (columns (input_column_iterator st) ! c) c
             (read_sources st) (pedigree st) (pedigree_partitions st ! i)
             (distrust_genotypes st) (allele_counts st ! c))
          idx)"

text \<open>
  Two tables were constructed from the same inputs: they agree on the members that no
  method changes after the construction and on the columns the column iterator walks
  through (its cursor may differ).
\<close>

definition same_inputs :: "PedigreeDPTable \<Rightarrow> PedigreeDPTable \<Rightarrow> bool" where
  "same_inputs st st' =
     (read_set st' = read_set st \<and> recombcost st' = recombcost st
      \<and> pedigree st' = pedigree st \<and> ploidy st' = ploidy st
      \<and> distrust_genotypes st' = distrust_genotypes st
      \<and> allele_counts st' = allele_counts st
      \<and> pedigree_partitions st' = pedigree_partitions st
      \<and> read_sources st' = read_sources st
      \<and> columns (input_column_iterator st') = columns (input_column_iterator st)
      \<and> positions (input_column_iterator st') = positions (input_column_iterator st))"

text \<open>
  The indexers as the forward pass of \<^verbatim>\<open>compute_table\<close> creates them (lines 164 and
  179--181): the indexer of a column is constructed from the indexer of the column
  before and its own read IDs, and is then linked to its successor, if there is one.
\<close>

fun raw_indexer ::
  "'cc collaborators \<Rightarrow> uint \<Rightarrow> entry list list \<Rightarrow> nat \<Rightarrow> column_indexing_scheme" where
  "raw_indexer env pl cols 0 = new_ColumnIndexingScheme env None (extract_read_ids (cols ! 0)) pl"
| "raw_indexer env pl cols (Suc c) =
     new_ColumnIndexingScheme env (Some (raw_indexer env pl cols c))
       (extract_read_ids (cols ! Suc c)) pl"

definition final_indexer ::
  "'cc collaborators \<Rightarrow> uint \<Rightarrow> entry list list \<Rightarrow> nat \<Rightarrow> column_indexing_scheme" where
  "final_indexer env pl cols c =
     (if Suc c < length cols
      then set_next_column env (raw_indexer env pl cols c) (raw_indexer env pl cols (Suc c))
      else raw_indexer env pl cols c)"

definition indexer_of :: "'cc collaborators \<Rightarrow> PedigreeDPTable \<Rightarrow> nat \<Rightarrow> column_indexing_scheme" where
  "indexer_of env st c = final_indexer env (ploidy st) (columns (input_column_iterator st)) c"

text \<open>
  The current costs: for the position number \<open>m\<close> of a walk \<open>ss\<close> the costs that the
  first \<open>T\<close> cost computers report after the deltas of the positions \<open>0, \<dots>, m\<close>; for a
  column \<open>c\<close> these lists for all positions of the walk of its indexer, with one cost
  computer per inheritance pattern.
\<close>

definition costs_at ::
  "'cc collaborators \<Rightarrow> nat \<Rightarrow> 'cc list \<Rightarrow> iterator_position list \<Rightarrow> nat \<Rightarrow> uint list" where
  "costs_at env T ccs ss m =
     map (get_cost env)
       (take T (foldl (\<lambda>c s. advance_cost_computers env s c) ccs (take (Suc m) ss)))"

definition walk_costs :: "'cc collaborators \<Rightarrow> PedigreeDPTable \<Rightarrow> nat \<Rightarrow> error + uint list list" where
  "walk_costs env st c =
     bind_r (transmission_configurations (pedigree st)) (\<lambda>T.
     bind_r (new_cost_computers env st (columns (input_column_iterator st) ! c) c [0..<T])
       (\<lambda>ccs. Inr (map (costs_at env T ccs (get_iterator (indexer_of env st c)))
                     [0..<length (get_iterator (indexer_of env st c))])))"

text \<open>No cost of the list is finite, that is below the sentinel.\<close>

definition no_finite_cost :: "uint list \<Rightarrow> bool" where
  "no_finite_cost costs = list_all (\<lambda>x. \<not> x < uint_max) costs"

text \<open>
  Column \<open>c\<close> has a position of its walk at which no inheritance pattern has a finite
  current cost; at every position of the walk of column \<open>c\<close> no inheritance pattern has
  a finite current cost.
\<close>

definition conflict_position :: "'cc collaborators \<Rightarrow> PedigreeDPTable \<Rightarrow> nat \<Rightarrow> bool" where
  "conflict_position env st c =
     (case walk_costs env st c of Inl e \<Rightarrow> False | Inr css \<Rightarrow> list_ex no_finite_cost css)"

definition all_cells_infinite :: "'cc collaborators \<Rightarrow> PedigreeDPTable \<Rightarrow> nat \<Rightarrow> bool" where
  "all_cells_infinite env st c =
     (case walk_costs env st c of Inl e \<Rightarrow> False | Inr css \<Rightarrow> list_all no_finite_cost css)"

text \<open>
  The tables that the forward sweep computes for column \<open>c\<close>: the walk of column 0
  without a previous projection column, the walk of every later column from the
  projection column of the column before.  In the forward sweep the optimum is the one
  \<^verbatim>\<open>clear_table\<close> sets until the last column is reached.
\<close>

definition cleared_optimum :: optimum where
  "cleared_optimum = (uint_max, 0, 0, 0)"

fun original_tables ::
  "'cc collaborators \<Rightarrow> PedigreeDPTable \<Rightarrow> nat \<Rightarrow> error + column_tables option" where
  "original_tables env st 0 =
     bind_r (transmission_configurations (pedigree st)) (\<lambda>T.
     bind_r (walk_column env st 0 (columns (input_column_iterator st) ! 0) None
               (indexer_of env st 0) T cleared_optimum)
       (\<lambda>(tabs, opt). Inr tabs))"
| "original_tables env st (Suc c) =
     bind_r (original_tables env st c) (\<lambda>before.
       case before of
         None \<Rightarrow> Inl InvariantViolation
       | Some (projection_column, index_backtrace_column, transmission_backtrace_column) \<Rightarrow>
           bind_r (transmission_configurations (pedigree st)) (\<lambda>T.
           bind_r (walk_column env st (Suc c) (columns (input_column_iterator st) ! Suc c)
                     (Some projection_column) (indexer_of env st (Suc c)) T cleared_optimum)
             (\<lambda>(tabs, opt). Inr tabs)))"

text \<open>
  The three tables a state holds for column \<open>j\<close>: nothing when the three pointers are
  null, the tables when the three are set.
\<close>

definition tables_at ::
  "PedigreeDPTable \<Rightarrow> nat \<Rightarrow> vector2d option \<times> vector2d option \<times> vector2d option" where
  "tables_at st j =
     (projection_column_table st ! j, index_backtrace_table st ! j,
      transmission_backtrace_table st ! j)"

definition holds_original :: "'cc collaborators \<Rightarrow> PedigreeDPTable \<Rightarrow> nat \<Rightarrow> bool" where
  "holds_original env st j =
     (case original_tables env st j of
        Inr (Some (p, ib, tb)) \<Rightarrow> tables_at st j = (Some p, Some ib, Some tb)
      | _ \<Rightarrow> False)"

text \<open>
  A state of the sweeps is sound when its vectors have one entry for every column, the
  indexers are the ones of the forward pass, and the tables of every column are either
  absent or identical to the tables the forward sweep computes for the column.
\<close>

definition tables_sound :: "'cc collaborators \<Rightarrow> PedigreeDPTable \<Rightarrow> bool" where
  "tables_sound env st =
     (let m = get_column_count (input_column_iterator st)
      in length (projection_column_table st) = m
         \<and> length (index_backtrace_table st) = m
         \<and> length (transmission_backtrace_table st) = m
         \<and> indexers st = map (\<lambda>c. Some (indexer_of env st c)) [0..<m]
         \<and> list_all (\<lambda>j. tables_at st j = (None, None, None) \<or> holds_original env st j)
              [0..<m])"

text \<open>The three table vectors have \<open>m\<close> entries each.\<close>

definition three_lengths :: "PedigreeDPTable \<Rightarrow> nat \<Rightarrow> bool" where
  "three_lengths st m \<longleftrightarrow>
     length (projection_column_table st) = m \<and> length (index_backtrace_table st) = m
     \<and> length (transmission_backtrace_table st) = m"

text \<open>
  The state of the forward pass before the round of column \<open>c\<close>, for the table \<open>st0\<close>
  that \<^verbatim>\<open>clear_table\<close> left and the stride \<open>k\<close>: the look-ahead variables hold column
  \<open>c\<close>; the indexers of the columns before are final; no column from \<open>c\<close> on has tables;
  the tables of a column before \<open>c\<close> are absent or the original ones, and they are
  present for the column just before \<open>c\<close> and for every stored column; no column before
  \<open>c\<close> has a position without a finite cost.
\<close>

definition forward_invariant ::
  "'cc collaborators \<Rightarrow> nat \<Rightarrow> PedigreeDPTable \<Rightarrow> nat \<Rightarrow> forward_state \<Rightarrow> bool" where
  "forward_invariant env k st0 c fs =
     (case fs of (st, nic, nri, nix) \<Rightarrow>
        let m = get_column_count (input_column_iterator st0);
            cols = columns (input_column_iterator st0)
        in same_inputs st0 st \<and> three_lengths st m \<and> length (indexers st) = m
           \<and> n (input_column_iterator st) = min (Suc c) m
           \<and> (c < m \<longrightarrow>
                 nic = Some (cols ! c)
                 \<and> nix = Some (raw_indexer env (ploidy st0) cols c)
                 \<and> indexers st ! c = Some (raw_indexer env (ploidy st0) cols c)
                 \<and> get_optimum st = cleared_optimum)
           \<and> (\<forall>j < m. j < c \<longrightarrow> indexers st ! j = Some (indexer_of env st0 j))
           \<and> (\<forall>j < m. c \<le> j \<longrightarrow> tables_at st j = (None, None, None))
           \<and> (\<forall>j < m. tables_at st j = (None, None, None) \<or> holds_original env st j)
           \<and> (\<forall>j < c. Suc j < m \<and> (Suc j = c \<or> k \<le> 1 \<or> j mod k = 0)
                  \<longrightarrow> holds_original env st j)
           \<and> (\<forall>j < m. j < c \<longrightarrow> \<not> conflict_position env st0 j))"

text \<open>
  The forward sweep of \<^verbatim>\<open>compute_table\<close> (lines 148--199) through the rounds of the
  columns \<open>0, \<dots>, b - 1\<close>, from the table that \<^verbatim>\<open>clear_table\<close> leaves.
\<close>

definition forward_sweep ::
  "'cc collaborators \<Rightarrow> PedigreeDPTable \<Rightarrow> nat \<Rightarrow> error + forward_state" where
  "forward_sweep env st0 b =
     (let st = clear_table st0;
          column_count = get_column_count (input_column_iterator st)
      in bind_r (first_column env st)
           (forward_loop env (floor_sqrt column_count) [0..<b]))"

text \<open>
  The first \<open>d\<close> rounds of the loop of the backtrace that starts at \<open>i\<close>: the rounds
  \<open>i, i - 1, \<dots>, i - d + 1\<close>.
\<close>

fun backtrace_rounds ::
  "'cc collaborators \<Rightarrow> nat \<Rightarrow> nat \<Rightarrow> nat \<Rightarrow> backtrace_state \<Rightarrow> error + backtrace_state" where
  "backtrace_rounds env k i 0 acc = Inr acc"
| "backtrace_rounds env k i (Suc d) acc =
     bind_r (backtrace_step env k i acc) (backtrace_rounds env k (i - 1) d)"

text \<open>
  The state of \<^verbatim>\<open>compute_table\<close> before the round \<open>i\<close> of the backtrace: the complete
  forward sweep, the initialisation of the index path (lines 201--210) and the rounds
  of the columns after \<open>i\<close>.
\<close>

definition backward_sweep ::
  "'cc collaborators \<Rightarrow> PedigreeDPTable \<Rightarrow> nat \<Rightarrow> error + backtrace_state" where
  "backward_sweep env st0 i =
     (let column_count = get_column_count (input_column_iterator (clear_table st0));
          k = floor_sqrt column_count
      in bind_r (forward_sweep env st0 column_count) (\<lambda>(st, nic, nri, nix).
           let size = length (indexers st);
               v = \<lparr>index = optimal_score_index st,
                    inheritance_value = optimal_transmission_value st\<rparr>
           in if size = 0 then Inl Undefined
              else backtrace_rounds env k (size - 1) (size - 1 - i)
                     (st\<lparr>index_path :=
                           (replicate size \<lparr>index = 0, inheritance_value = 0\<rparr>)
                             [size - 1 := v]\<rparr>,
                      v, previous_transmission_value st)))"

text \<open>
  The state of the backtrace before the round \<open>i\<close>, for the table \<open>st0\<close> of the inputs
  and the stride \<open>k\<close>: the state is sound, every stored column up to \<open>i\<close> holds its
  tables, and so does every column from \<open>i\<close> to the end of the block of \<open>i\<close>.
\<close>

definition backward_invariant ::
  "'cc collaborators \<Rightarrow> nat \<Rightarrow> PedigreeDPTable \<Rightarrow> nat \<Rightarrow> backtrace_state \<Rightarrow> bool" where
  "backward_invariant env k st0 i bs =
     (case bs of (st, v, prev) \<Rightarrow>
        let m = get_column_count (input_column_iterator st0)
        in same_inputs st0 st \<and> tables_sound env st \<and> length (index_path st) = m
           \<and> (\<forall>j < m. j \<le> i \<and> Suc j < m \<and> j mod k = 0 \<longrightarrow> holds_original env st j)
           \<and> (\<forall>j < m. i \<le> j \<and> j < i div k * k + k \<and> Suc j < m
                  \<longrightarrow> holds_original env st j))"

(* DEFINITIONS END *)

section \<open>Basic lemmas\<close>

lemma bind_r_simps [simp]:
  "bind_r (Inl e) f = Inl e" "bind_r (Inr x) f = f x"
  by (simp_all add: bind_r_def)

lemma bind_r_eq_Inr: "bind_r m f = Inr y \<longleftrightarrow> (\<exists>x. m = Inr x \<and> f x = Inr y)"
  by (cases m) simp_all

lemma bind_r_eq_Inl:
  "bind_r m f = Inl e \<longleftrightarrow> m = Inl e \<or> (\<exists>x. m = Inr x \<and> f x = Inl e)"
  by (cases m) simp_all

lemma unat_ucast_up: "unat (ucast (w :: uint) :: size_t) = unat w"
proof -
  have "unat w < 2 ^ 32" using unsigned_less [of w] by simp
  then have "unat w < 2 ^ 64" by (rule less_trans) simp
  then show ?thesis by (simp add: unsigned_ucast_eq take_bit_nat_eq_self)
qed

lemma unat_ucast_down: "unat (ucast (w :: size_t) :: uint) = unat w mod 2 ^ 32"
  by (simp add: unsigned_ucast_eq take_bit_eq_mod)

lemma unat_uint_max: "unat uint_max = 4294967295"
  by (simp add: uint_max_def)

lemma less_uint_max: "(w < uint_max) = (w \<noteq> uint_max)"
proof -
  have b: "unat w < 2 ^ 32" using unsigned_less [of w] by simp
  have l: "(w < uint_max) = (unat w < 4294967295)"
    by (simp add: word_less_nat_alt unat_uint_max)
  have e: "(w = uint_max) = (unat w = 4294967295)"
    by (simp add: word_unat_eq_iff unat_uint_max)
  from b l e show ?thesis by auto
qed

section \<open>The relaxation candidate\<close>

lemma unat_add_recombination:
  "unat (add_recombination val i j rc) =
     (unat val + unat (popcount (of_nat i XOR of_nat j)) * unat rc) mod 2 ^ 32"
proof -
  let ?x = "of_nat i XOR of_nat j :: size_t"
  have "unat (ucast ((ucast val :: size_t) + popcount ?x * ucast rc) :: uint)
      = unat ((ucast val :: size_t) + popcount ?x * ucast rc) mod 2 ^ 32"
    by (rule unat_ucast_down)
  also have "\<dots> = ((unat val + unat (popcount ?x) * unat rc) mod 2 ^ 64) mod 2 ^ 32"
    by (simp add: unat_word_ariths unat_ucast_up mod_add_right_eq)
  also have "\<dots> = (unat val + unat (popcount ?x) * unat rc) mod 2 ^ 32"
    by (simp add: mod_mod_cancel le_imp_power_dvd)
  finally show ?thesis by (simp add: add_recombination_def Let_def)
qed

lemma add_costs_cases:
  "add_costs c p = (if c = uint_max \<or> p = uint_max then uint_max else c + p)"
  by (simp add: add_costs_def less_uint_max)

text \<open>
  C2, as the code has it.  For a column \<open>c > 0\<close>, a pattern \<open>i\<close> and a predecessor \<open>j\<close>
  the candidate is the sentinel when the current cost or the projected previous cost is
  the sentinel, or when their 32-bit sum is the sentinel.  Otherwise it is
  \<open>previous + current + popcount(i XOR j) * recombcost[c]\<close> reduced modulo \<open>2^32\<close>:
  the unsigned arithmetic wraps around, it does not saturate.
\<close>

theorem relaxation_candidate:
  assumes "0 < column_index"
    and "previous_projection_column = Some p"
    and "v2_at p backward_projection_index j = Inr previous_cost"
    and "column_index < length rcs"
  shows "\<exists>val. predecessor_value rcs column_index previous_projection_column
                 backward_projection_index current_cost i j = Inr val \<and>
           (if current_cost = uint_max \<or> previous_cost = uint_max
               \<or> (unat previous_cost + unat current_cost) mod 2 ^ 32 = unat uint_max
            then val = uint_max
            else unat val =
                   (unat previous_cost + unat current_cost
                      + unat (popcount (of_nat i XOR of_nat j)) * unat (rcs ! column_index))
                   mod 2 ^ 32)"
proof -
  let ?val = "add_costs current_cost previous_cost"
  let ?rc = "rcs ! column_index"
  have pv: "predecessor_value rcs column_index previous_projection_column
              backward_projection_index current_cost i j
            = Inr (if ?val < uint_max then add_recombination ?val i j ?rc else ?val)"
    using assms by (simp add: predecessor_value_def at_ub_def Let_def)
  have s: "unat (current_cost + previous_cost)
             = (unat previous_cost + unat current_cost) mod 2 ^ 32"
  proof -
    have "unat (current_cost + previous_cost)
            = (unat current_cost + unat previous_cost) mod 2 ^ 32"
      by (simp add: unat_word_ariths(1))
    also have "unat current_cost + unat previous_cost = unat previous_cost + unat current_cost"
      by (rule add.commute)
    finally show ?thesis .
  qed
  show ?thesis
  proof (cases "current_cost = uint_max \<or> previous_cost = uint_max")
    case True
    then have "?val = uint_max" by (auto simp: add_costs_cases)
    with pv True show ?thesis by auto
  next
    case False
    then have v: "?val = current_cost + previous_cost" by (simp add: add_costs_cases)
    show ?thesis
    proof (cases "(unat previous_cost + unat current_cost) mod 2 ^ 32 = unat uint_max")
      case True
      with s have "current_cost + previous_cost = uint_max"
        by (simp add: word_unat_eq_iff)
      with pv v True show ?thesis by simp
    next
      case nw: False
      with s have "current_cost + previous_cost \<noteq> uint_max"
        by (simp add: word_unat_eq_iff)
      then have lt: "?val < uint_max" using v by (simp add: less_uint_max)
      have "unat (add_recombination ?val i j ?rc) =
              (unat previous_cost + unat current_cost
                 + unat (popcount (of_nat i XOR of_nat j)) * unat ?rc) mod 2 ^ 32"
        unfolding unat_add_recombination v s by (simp add: mod_add_left_eq)
      with pv lt False nw show ?thesis by simp
    qed
  qed
qed

text \<open>
  C2, witness: in column 1, with the previous cost 5, the current cost 2, the patterns
  \<open>i = 1\<close> and \<open>j = 2\<close> (two bits differ) and the recombination cost 3 the candidate is
  \<open>5 + 2 + 2 * 3 = 13\<close>.
\<close>

theorem relaxation_candidate_witness:
  "\<exists>val. predecessor_value [0, 3] 1 (Some (Vector2D 1 4 5)) 0 2 1 2 = Inr val \<and> unat val = 13"
proof -
  have h3: "v2_at (Vector2D 1 4 5) 0 2 = Inr 5"
    by (simp add: Vector2D_def v2_at_def)
  have pc: "unat (popcount (of_nat 1 XOR of_nat 2)) = 2"
    by (simp add: popcount_def)
  have u: "(2 :: uint) \<noteq> uint_max" "(5 :: uint) \<noteq> uint_max" "unat uint_max = 4294967295"
    by (simp_all add: uint_max_def)
  from relaxation_candidate [OF _ refl h3, of 1 "[0, 3]" 2 1]
  obtain val where v: "predecessor_value [0, 3] 1 (Some (Vector2D 1 4 5)) 0 2 1 2 = Inr val"
    and "(if (2::uint) = uint_max \<or> (5::uint) = uint_max
               \<or> (unat (5::uint) + unat (2::uint)) mod 2 ^ 32 = unat uint_max
            then val = uint_max
            else unat val =
                   (unat (5::uint) + unat (2::uint)
                      + unat (popcount (of_nat 1 XOR of_nat 2)) * unat ([0, 3 :: uint] ! 1))
                   mod 2 ^ 32)"
    by auto
  then have "unat val = 13" unfolding pc using u by simp
  with v show ?thesis by simp
qed

text \<open>
  C2 as stated fails: in column 1, with the previous cost \<open>2^31\<close>, the current cost
  \<open>2^31\<close> and no recombination, no summand is the sentinel and the sum \<open>2^32\<close> exceeds
  the sentinel, yet the candidate is 0 and not the sentinel.
\<close>

theorem relaxation_wraps_counterexample:
  "predecessor_value [0, 0] 1 (Some (Vector2D 1 1 2147483648)) 0 2147483648 0 0 = Inr 0
   \<and> v2_at (Vector2D 1 1 2147483648) 0 0 = Inr 2147483648
   \<and> unat uint_max \<le> unat (2147483648 :: uint) + unat (2147483648 :: uint)
      + unat (popcount (of_nat 0 XOR of_nat 0)) * unat ([0, 0 :: uint] ! 1)
   \<and> (0 :: uint) \<noteq> uint_max"
  by (simp add: predecessor_value_def Vector2D_def v2_at_def add_costs_def uint_max_def
      at_ub_def add_recombination_def popcount_def)

section \<open>\<^verbatim>\<open>get_optimal_partitioning\<close>\<close>

lemma at_ub_Inr: "at_ub xs i = Inr x \<longleftrightarrow> i < length xs \<and> x = xs ! i"
  by (auto simp: at_ub_def)

lemma at_chk_Inr: "at_chk xs i = Inr x \<longleftrightarrow> i < length xs \<and> x = xs ! i"
  by (auto simp: at_chk_def)

lemma reads_loop_frame:
  "reads_loop pl ids js (idx, part) = Inr (idx', part') \<Longrightarrow>
     length part' = length part \<and> (r \<notin> set ids \<longrightarrow> part' ! r = part ! r)"
proof (induction js arbitrary: idx part)
  case Nil
  then show ?case by simp
next
  case (Cons j js)
  from Cons.prems obtain rid where pl: "pl \<noteq> 0" and rid: "at_chk ids j = Inr rid"
    and lt: "rid < length part"
    and rest: "reads_loop pl ids js (idx div pl, part[rid := idx mod pl]) = Inr (idx', part')"
    by (auto simp: bind_r_eq_Inr Let_def split: if_splits)
  from rid have "rid \<in> set ids" by (auto simp: at_chk_Inr)
  then have "r \<notin> set ids \<Longrightarrow> r \<noteq> rid" by auto
  with Cons.IH [OF rest] show ?case by auto
qed

lemma partitioning_columns_loop_frame:
  assumes "partitioning_columns_loop st is part = Inr part'"
    and "\<forall>i \<in> set is. \<forall>indexer. at_ub (indexers st) i = Inr (Some indexer)
           \<longrightarrow> r \<notin> set (get_read_ids indexer)"
  shows "length part' = length part \<and> part' ! r = part ! r"
  using assms
proof (induction "is" arbitrary: part)
  case Nil
  then show ?case by simp
next
  case (Cons i "is")
  from Cons.prems(1) obtain v :: index_and_inheritance_t and indexer idx part1 where
    ix: "at_ub (indexers st) i = Inr (Some indexer)"
    and rl: "reads_loop (ploidy st) (get_read_ids indexer)
               [0..<length (get_read_ids indexer)] (index v, part) = Inr (idx, part1)"
    and rest: "partitioning_columns_loop st is part1 = Inr part'"
    by (auto simp: bind_r_eq_Inr split: option.splits)
  from Cons.prems(2) ix have "r \<notin> set (get_read_ids indexer)" by simp
  with reads_loop_frame [OF rl] have "length part1 = length part" "part1 ! r = part ! r"
    by simp_all
  moreover from Cons.IH [OF rest] Cons.prems(2)
  have "length part' = length part1 \<and> part' ! r = part1 ! r" by simp
  ultimately show ?case by simp
qed

text \<open>
  C10: in the sequence returned by \<^verbatim>\<open>get_optimal_partitioning\<close> every read that occurs
  in no column's list of active reads along the index path has the partition 0; the
  sequence has the length of the read set.
\<close>

theorem inactive_reads_partition_zero:
  assumes "get_optimal_partitioning st = Inr partitioning"
    and "r < length (read_set st)"
    and "never_active st r"
  shows "length partitioning = length (read_set st) \<and> partitioning ! r = 0"
proof -
  from assms(3) have "\<forall>i \<in> set [0..<length (index_path st)]. \<forall>indexer.
      at_ub (indexers st) i = Inr (Some indexer) \<longrightarrow> r \<notin> set (get_read_ids indexer)"
    by (auto simp: never_active_def list_all_iff)
  with partitioning_columns_loop_frame
         [OF assms(1) [unfolded get_optimal_partitioning_def], of r] assms(2)
  show ?thesis by simp
qed

text \<open>
  C10, witness: two reads, of which only the first covers the two columns; the costs
  put the first read into partition 1, the second read is never active and gets 0.
\<close>

theorem inactive_reads_partition_zero_witness:
  "\<exists>st partitioning.
     snd (new_PedigreeDPTable (demo_env cost_prefers_one) [demo_read [10, 20], demo_read []]
            [1, 1] solo 2 False [2, 2] [10, 20] None) = Inr st
     \<and> get_optimal_partitioning st = Inr partitioning
     \<and> 1 < length (read_set st) \<and> never_active st 1
     \<and> partitioning = [1, 0] \<and> partitioning ! 1 = 0"
proof -
  have "case snd (new_PedigreeDPTable (demo_env cost_prefers_one)
                    [demo_read [10, 20], demo_read []] [1, 1] solo 2 False [2, 2] [10, 20] None)
        of Inr st \<Rightarrow> get_optimal_partitioning st = Inr [1, 0]
                     \<and> 1 < length (read_set st) \<and> never_active st 1
         | Inl e \<Rightarrow> False"
    by code_simp
  then obtain st where
    run: "snd (new_PedigreeDPTable (demo_env cost_prefers_one)
                 [demo_read [10, 20], demo_read []] [1, 1] solo 2 False [2, 2] [10, 20] None)
          = Inr st"
    and part: "get_optimal_partitioning st = Inr [1, 0]"
    and hyps: "1 < length (read_set st)" "never_active st 1"
    by (auto split: sum.splits)
  from inactive_reads_partition_zero [OF part hyps] have "[1, 0 :: uint] ! 1 = 0" by simp
  with run part hyps show ?thesis by simp
qed

section \<open>The precomputed partitioning\<close>

lemma lookup_or_insert_partition:
  "lookup_or_insert m x = (p, m') \<Longrightarrow> p = partition_of m x \<and> partition_of m' = partition_of m"
proof (cases "m x")
  case None
  assume "lookup_or_insert m x = (p, m')"
  with None have p: "p = 0" and m': "m' = m(x \<mapsto> 0)" by (simp_all add: lookup_or_insert_def)
  have "partition_of m' y = partition_of m y" for y
    using None m' by (simp add: partition_of_def)
  with p None show ?thesis by (auto simp: partition_of_def)
next
  case (Some q)
  assume "lookup_or_insert m x = (p, m')"
  with Some show ?thesis by (simp add: lookup_or_insert_def partition_of_def)
qed

lemma partitioning_loop_pack:
  "partitioning_loop pl ids (acc, off, m) = (acc', off', m') \<Longrightarrow>
     acc' = acc + off * pack_partitioning pl (map (partition_of m) ids)
     \<and> partition_of m' = partition_of m"
proof (induction ids arbitrary: acc off m)
  case Nil
  then show ?case by simp
next
  case (Cons x ids)
  obtain p m1 where l: "lookup_or_insert m x = (p, m1)" by (cases "lookup_or_insert m x")
  with Cons.prems have rest: "partitioning_loop pl ids (acc + p * off, off * pl, m1) = (acc', off', m')"
    by simp
  from lookup_or_insert_partition [OF l] have p: "p = partition_of m x"
    and m1: "partition_of m1 = partition_of m" by simp_all
  from Cons.IH [OF rest] m1 p show ?case by (simp add: algebra_simps)
qed

lemma same_inputs_refl [simp]: "same_inputs st st"
  by (simp add: same_inputs_def)

lemma same_inputs_trans: "same_inputs a b \<Longrightarrow> same_inputs b c \<Longrightarrow> same_inputs a c"
  by (simp add: same_inputs_def)

lemma same_inputs_sym: "same_inputs a b \<Longrightarrow> same_inputs b a"
  by (simp add: same_inputs_def)


lemma index_path_column_correct:
  assumes "index_path_column env c st col ids = Inr st2"
  shows "c < length (index_path st)
     \<and> c < length (allele_counts st) \<and> 0 < length (pedigree_partitions st)
     \<and> st2 = st\<lparr>read_to_partition := read_to_partition st2,
               index_path := (index_path st)
                 [c := \<lparr>index = pack_partitioning (ploidy st)
                                   (map (partition_of (read_to_partition st)) ids),
                        inheritance_value = 0\<rparr>],
               optimal_score := optimal_score st +
                 get_cost env
                   (set_partitioning env
                      (new_PedigreeColumnCostComputer env col c (read_sources st) (pedigree st)
                         (pedigree_partitions st ! 0) (distrust_genotypes st)
                         (allele_counts st ! c))
                      (pack_partitioning (ploidy st)
                         (map (partition_of (read_to_partition st)) ids)))\<rparr>
     \<and> partition_of (read_to_partition st2) = partition_of (read_to_partition st)"
proof -
  obtain partitioning offset rtp where
    pl: "partitioning_loop (ploidy st) ids (0, 1, read_to_partition st) = (partitioning, offset, rtp)"
    by (cases "partitioning_loop (ploidy st) ids (0, 1, read_to_partition st)")
  from partitioning_loop_pack [OF pl]
  have part: "partitioning = pack_partitioning (ploidy st) (map (partition_of (read_to_partition st)) ids)"
    and rtp: "partition_of rtp = partition_of (read_to_partition st)"
    by simp_all
  from assms pl part rtp show ?thesis
    by (auto simp: index_path_column_def bind_r_eq_Inr at_ub_Inr at_chk_Inr split: if_splits)
qed

lemma index_path_loop_correct:
  assumes "index_path_loop env [c..<m] (st, col, ids) = Inr (st', col', ids')"
    and "length (columns (input_column_iterator st)) = m"
    and "c < m \<longrightarrow> col = columns (input_column_iterator st) ! c \<and> ids = extract_read_ids col
           \<and> n (input_column_iterator st) = Suc c"
    and "length (index_path st) = m"
  shows "length (index_path st') = m
     \<and> (\<forall>c' < m. index_path st' ! c' =
           (if c' < c then index_path st ! c'
            else \<lparr>index = precomputed_index (ploidy st) (partition_of (read_to_partition st))
                            (columns (input_column_iterator st) ! c'),
                  inheritance_value = 0\<rparr>))
     \<and> optimal_score st' = optimal_score st +
           sum_list (map (\<lambda>c'. column_cost env st c' 0
                            (precomputed_index (ploidy st) (partition_of (read_to_partition st))
                               (columns (input_column_iterator st) ! c'))) [c..<m])
     \<and> indexers st' = indexers st
     \<and> projection_column_table st' = projection_column_table st
     \<and> index_backtrace_table st' = index_backtrace_table st
     \<and> transmission_backtrace_table st' = transmission_backtrace_table st
     \<and> same_inputs st st'"
  using assms
proof (induction "m - c" arbitrary: c st col ids)
  case 0
  then have mc: "m \<le> c" by simp
  then have "[c..<m] = []" by simp
  with "0.prems" mc show ?case by auto
next
  case (Suc k)
  then have cm: "c < m" by simp
  then have upt: "[c..<m] = c # [Suc c..<m]" by (simp add: upt_conv_Cons)
  let ?it = "input_column_iterator st"
  let ?cols = "columns ?it"
  let ?P = "\<lambda>c'. precomputed_index (ploidy st) (partition_of (read_to_partition st)) (?cols ! c')"
  from Suc.prems cm have col: "col = ?cols ! c" and ids: "ids = extract_read_ids col"
    and pos: "n ?it = Suc c" by simp_all
  from Suc.prems(1) upt obtain st2 where
    c1: "index_path_column env c st col ids = Inr st2"
    and rest0: "(if has_next (input_column_iterator st2)
          then bind_r (get_next (input_column_iterator st2)) (\<lambda>(col, it).
                 index_path_loop env [Suc c..<m]
                   (st2\<lparr>input_column_iterator := it\<rparr>, col, extract_read_ids col))
          else index_path_loop env [Suc c..<m] (st2, col, ids)) = Inr (st', col', ids')"
    by (auto simp: bind_r_eq_Inr)
  note cc = index_path_column_correct [OF c1]
  from cc have st2: "st2 = st\<lparr>read_to_partition := read_to_partition st2,
               index_path := (index_path st)[c := \<lparr>index = ?P c, inheritance_value = 0\<rparr>],
               optimal_score := optimal_score st + column_cost env st c 0 (?P c)\<rparr>"
    and rtp: "partition_of (read_to_partition st2) = partition_of (read_to_partition st)"
    by (simp_all add: precomputed_index_def column_cost_def ids col)
  have it2: "input_column_iterator st2 = ?it" by (subst st2) simp
  have f2: "ploidy st2 = ploidy st" "indexers st2 = indexers st"
    "projection_column_table st2 = projection_column_table st"
    "index_backtrace_table st2 = index_backtrace_table st"
    "transmission_backtrace_table st2 = transmission_backtrace_table st"
    "same_inputs st st2"
    "\<And>x. same_inputs st (st2\<lparr>input_column_iterator := ?it\<lparr>n := x\<rparr>\<rparr>)"
    "index_path st2 = (index_path st)[c := \<lparr>index = ?P c, inheritance_value = 0\<rparr>]"
    "optimal_score st2 = optimal_score st + column_cost env st c 0 (?P c)"
    by (subst st2, simp add: same_inputs_def)+
  have cc2: "\<And>x c' idx. column_cost env (st2\<lparr>input_column_iterator := ?it\<lparr>n := x\<rparr>\<rparr>) c' 0 idx
                = column_cost env st c' 0 idx"
    by (subst st2) (simp add: column_cost_def)
  show ?case
  proof (cases "Suc c < m")
    case True
    let ?it' = "?it\<lparr>n := Suc (Suc c)\<rparr>"
    let ?st3 = "st2\<lparr>input_column_iterator := ?it'\<rparr>"
    from True pos Suc.prems(2) it2 have hn: "has_next (input_column_iterator st2)"
      by (simp add: has_next_def)
    from True pos Suc.prems(2) it2
    have gn: "get_next (input_column_iterator st2) = Inr (?cols ! Suc c, ?it')"
      by (simp add: get_next_def has_next_def)
    from rest0 hn gn
    have rest: "index_path_loop env [Suc c..<m] (?st3, ?cols ! Suc c, extract_read_ids (?cols ! Suc c))
                  = Inr (st', col', ids')"
      by simp
    have k: "k = m - Suc c" using Suc.hyps(2) by simp
    from Suc.hyps(1) [OF k rest] Suc.prems(2,4) True f2 rtp cc2
    have ih: "length (index_path st') = m"
      "\<forall>c' < m. index_path st' ! c' =
           (if c' < Suc c then (index_path st)[c := \<lparr>index = ?P c, inheritance_value = 0\<rparr>] ! c'
            else \<lparr>index = ?P c', inheritance_value = 0\<rparr>)"
      "optimal_score st' = optimal_score st + column_cost env st c 0 (?P c) +
           sum_list (map (\<lambda>c'. column_cost env st c' 0 (?P c')) [Suc c..<m])"
      "indexers st' = indexers st"
      "projection_column_table st' = projection_column_table st"
      "index_backtrace_table st' = index_backtrace_table st"
      "transmission_backtrace_table st' = transmission_backtrace_table st"
      "same_inputs ?st3 st'"
      by simp_all
    from same_inputs_trans [OF f2(7) ih(8)] have si: "same_inputs st st'" .
    have ip: "\<forall>c' < m. index_path st' ! c' =
           (if c' < c then index_path st ! c' else \<lparr>index = ?P c', inheritance_value = 0\<rparr>)"
    proof (intro allI impI)
      fix c' assume c': "c' < m"
      show "index_path st' ! c' =
           (if c' < c then index_path st ! c' else \<lparr>index = ?P c', inheritance_value = 0\<rparr>)"
        using ih(2) c' cm Suc.prems(4)
        by (cases "c' = c") (auto simp: nth_list_update)
    qed
    from ih ip upt si show ?thesis by (simp add: add.assoc)
  next
    case False
    with cm have last: "Suc c = m" by simp
    then have e: "[Suc c..<m] = []" by simp
    from last pos Suc.prems(2) it2 have hn: "\<not> has_next (input_column_iterator st2)"
      by (simp add: has_next_def)
    from rest0 hn e have st': "st' = st2" by simp
    have ip: "\<forall>c' < m. index_path st' ! c' =
           (if c' < c then index_path st ! c' else \<lparr>index = ?P c', inheritance_value = 0\<rparr>)"
      using st' last Suc.prems(4) f2 by (auto simp: nth_list_update less_Suc_eq)
    from st' ip upt e f2 Suc.prems(4) show ?thesis by simp
  qed
qed
lemma clear_table_fields [simp]:
  "input_column_iterator (clear_table st) = input_column_iterator st"
  "ploidy (clear_table st) = ploidy st"
  "pedigree (clear_table st) = pedigree st"
  "recombcost (clear_table st) = recombcost st"
  "read_set (clear_table st) = read_set st"
  "read_sources (clear_table st) = read_sources st"
  "read_to_partition (clear_table st) = read_to_partition st"
  "allele_counts (clear_table st) = allele_counts st"
  "pedigree_partitions (clear_table st) = pedigree_partitions st"
  "distrust_genotypes (clear_table st) = distrust_genotypes st"
  "index_path (clear_table st) = []"
  "indexers (clear_table st) = replicate (get_column_count (input_column_iterator st)) None"
  "projection_column_table (clear_table st)
     = replicate (get_column_count (input_column_iterator st)) None"
  "index_backtrace_table (clear_table st)
     = replicate (get_column_count (input_column_iterator st)) None"
  "transmission_backtrace_table (clear_table st)
     = replicate (get_column_count (input_column_iterator st)) None"
  "optimal_score (clear_table st) = uint_max"
  "optimal_score_index (clear_table st) = 0"
  "optimal_transmission_value (clear_table st) = 0"
  "previous_transmission_value (clear_table st) = 0"
  by (simp_all add: clear_table_def Let_def)

lemma column_cost_cong:
  assumes "columns (input_column_iterator st) = columns (input_column_iterator st')"
    and "read_sources st = read_sources st'" "pedigree st = pedigree st'"
    and "pedigree_partitions st = pedigree_partitions st'"
    and "distrust_genotypes st = distrust_genotypes st'"
    and "allele_counts st = allele_counts st'"
  shows "column_cost env st c i idx = column_cost env st' c i idx"
  using assms by (simp add: column_cost_def)

lemma set_index_path_correct:
  assumes "set_index_path env st0 = Inr st"
  shows "length (index_path st) = get_column_count (input_column_iterator st0)
     \<and> (\<forall>c < get_column_count (input_column_iterator st0). index_path st ! c =
            \<lparr>index = precomputed_index (ploidy st0) (partition_of (read_to_partition st0))
                       (columns (input_column_iterator st0) ! c),
             inheritance_value = 0\<rparr>)
     \<and> optimal_score st =
           sum_list (map (\<lambda>c. column_cost env st0 c 0
                            (precomputed_index (ploidy st0) (partition_of (read_to_partition st0))
                               (columns (input_column_iterator st0) ! c)))
                     [0..<get_column_count (input_column_iterator st0)])
     \<and> indexers st = replicate (get_column_count (input_column_iterator st0)) None
     \<and> projection_column_table st = replicate (get_column_count (input_column_iterator st0)) None
     \<and> index_backtrace_table st = replicate (get_column_count (input_column_iterator st0)) None
     \<and> transmission_backtrace_table st
           = replicate (get_column_count (input_column_iterator st0)) None
     \<and> same_inputs st0 st"
proof (cases "get_column_count (input_column_iterator st0) = 0")
  case True
  with assms have "st = (clear_table st0)\<lparr>optimal_score := 0, optimal_score_index := 0\<rparr>"
    by (simp add: set_index_path_def Let_def)
  with True show ?thesis by (simp add: same_inputs_def)
next
  case False
  let ?it = "input_column_iterator st0"
  let ?m = "get_column_count ?it"
  let ?cols = "columns ?it"
  let ?st1 = "(clear_table st0)\<lparr>optimal_score := 0, optimal_score_index := 0,
                 input_column_iterator := ?it\<lparr>n := Suc 0\<rparr>,
                 index_path := replicate ?m \<lparr>index = 0, inheritance_value = 0\<rparr>\<rparr>"
  from False have m: "0 < length ?cols" by (simp add: get_column_count_def)
  then have gn: "get_next (jump_to_column ?it 0) = Inr (?cols ! 0, ?it\<lparr>n := Suc 0\<rparr>)"
    by (simp add: get_next_def jump_to_column_def has_next_def)
  from assms False gn obtain col' ids' where
    loop: "index_path_loop env [0..<?m] (?st1, ?cols ! 0, extract_read_ids (?cols ! 0))
             = Inr (st, col', ids')"
    by (auto simp: set_index_path_def Let_def bind_r_eq_Inr get_column_count_def)
  have cc: "\<And>c idx. column_cost env ?st1 c 0 idx = column_cost env st0 c 0 idx"
    by (rule column_cost_cong) simp_all
  have si: "same_inputs st0 ?st1" by (simp add: same_inputs_def)
  from index_path_loop_correct [OF loop] cc same_inputs_trans [OF si] show ?thesis
    by (simp add: get_column_count_def)
qed

lemma reassignReadIds_length [simp]: "length (reassignReadIds rs) = length rs"
  by (simp add: reassignReadIds_def)












section \<open>The constructor and the read set\<close>








section \<open>\<^verbatim>\<open>get_optimal_partitioning\<close> after the two paths of the constructor\<close>

lemma reads_loop_range:
  assumes "reads_loop pl ids js (idx, part) = Inr (idx', part')"
    and "\<forall>x \<in> set part. x < pl"
  shows "\<forall>x \<in> set part'. x < pl"
  using assms
proof (induction js arbitrary: idx part)
  case Nil
  then show ?case by simp
next
  case (Cons j js)
  from Cons.prems(1) obtain rid where pl: "pl \<noteq> 0"
    and rest: "reads_loop pl ids js (idx div pl, part[rid := idx mod pl]) = Inr (idx', part')"
    by (auto simp: bind_r_eq_Inr Let_def split: if_splits)
  from pl have "0 < pl" by (simp add: word_greater_zero_iff)
  then have "idx mod pl < pl" by (rule word_mod_less_divisor)
  with Cons.prems(2) have "\<forall>x \<in> set (part[rid := idx mod pl]). x < pl"
    by (auto dest: set_update_subset_insert [THEN subsetD])
  from Cons.IH [OF rest this] show ?case .
qed

lemma partitioning_columns_loop_range:
  assumes "partitioning_columns_loop st is part = Inr part'"
    and "\<forall>x \<in> set part. x < ploidy st"
  shows "\<forall>x \<in> set part'. x < ploidy st"
  using assms
proof (induction "is" arbitrary: part)
  case Nil
  then show ?case by simp
next
  case (Cons i "is")
  from Cons.prems(1) obtain v :: index_and_inheritance_t
    and indexer :: column_indexing_scheme and idx part1 where
    rl: "reads_loop (ploidy st) (get_read_ids indexer)
               [0..<length (get_read_ids indexer)] (index v, part) = Inr (idx, part1)"
    and rest: "partitioning_columns_loop st is part1 = Inr part'"
    by (auto simp: bind_r_eq_Inr split: option.splits)
  from Cons.IH [OF rest reads_loop_range [OF rl Cons.prems(2)]] show ?case .
qed

lemma partitioning_columns_loop_length:
  "partitioning_columns_loop st is part = Inr part' \<Longrightarrow> length part' = length part"
proof (induction "is" arbitrary: part)
  case Nil
  then show ?case by simp
next
  case (Cons i "is")
  from Cons.prems(1) obtain v :: index_and_inheritance_t
    and indexer :: column_indexing_scheme and idx part1 where
    rl: "reads_loop (ploidy st) (get_read_ids indexer)
               [0..<length (get_read_ids indexer)] (index v, part) = Inr (idx, part1)"
    and rest: "partitioning_columns_loop st is part1 = Inr part'"
    by (auto simp: bind_r_eq_Inr split: option.splits)
  from Cons.IH [OF rest] reads_loop_frame [OF rl] show ?case by simp
qed

text \<open>
  Whenever \<^verbatim>\<open>get_optimal_partitioning\<close> returns a sequence and the ploidy is positive,
  the sequence has one element for every read and every element is below the ploidy.
\<close>

lemma optimal_partitioning_range:
  assumes "get_optimal_partitioning st = Inr partitioning" and "ploidy st \<noteq> 0"
  shows "length partitioning = length (read_set st) \<and> (\<forall>x \<in> set partitioning. x < ploidy st)"
proof -
  from assms(2) have z: "\<forall>x \<in> set (replicate (length (read_set st)) (0 :: uint)). x < ploidy st"
    by (simp add: word_greater_zero_iff)
  from assms(1) have l: "partitioning_columns_loop st [0..<length (index_path st)]
      (replicate (length (read_set st)) 0) = Inr partitioning"
    by (simp add: get_optimal_partitioning_def)
  from partitioning_columns_loop_range [OF l z] partitioning_columns_loop_length [OF l]
  show ?thesis by simp
qed

text \<open>
  After the precomputed-partitioning path of the constructor no indexer exists
  (\<^verbatim>\<open>set_index_path\<close> never creates one), and with at least one column
  \<^verbatim>\<open>get_optimal_partitioning\<close> dereferences the null pointer \<^verbatim>\<open>indexers[0]\<close>.
\<close>

lemma precomputed_path_partitioning_undefined:
  assumes "set_index_path env st0 = Inr st"
    and "0 < get_column_count (input_column_iterator st0)"
  shows "get_optimal_partitioning st = Inl Undefined"
proof -
  let ?m = "get_column_count (input_column_iterator st0)"
  from set_index_path_correct [OF assms(1)]
  have len: "length (index_path st) = ?m" and ix: "indexers st = replicate ?m None"
    by simp_all
  from assms(2) have upt: "[0..<?m] = 0 # [Suc 0..<?m]" by (simp add: upt_conv_Cons)
  from len ix assms(2) upt show ?thesis
    by (simp add: get_optimal_partitioning_def at_ub_def)
qed

text \<open>
  C8 fails on the code: one read over one column with the precomputed partition 0.  The
  constructor completes, and \<^verbatim>\<open>get_optimal_partitioning\<close> then has undefined behaviour
  instead of returning a sequence.
\<close>

theorem precomputed_partitioning_null_indexer:
  "case new_PedigreeDPTable (demo_env cost1) [demo_read [10]] [0] solo 2 False [2] [10] (Some [0])
   of (rs, Inr st) \<Rightarrow> indexers st = [None] \<and> get_optimal_partitioning st = Inl Undefined
    | (rs, Inl e) \<Rightarrow> False"
  by code_simp

section \<open>\<^verbatim>\<open>get_super_reads\<close>\<close>

lemma column_super_reads_iterator [simp]:
  "column_super_reads env (st\<lparr>input_column_iterator := x\<rparr>) poss i col sr
     = column_super_reads env st poss i col sr"
  by (simp add: column_super_reads_def)

declare super_reads_loop.simps [simp del]

lemma super_reads_loop_iterator [simp]:
  "super_reads_loop env (st\<lparr>input_column_iterator := x\<rparr>) poss acc
     = super_reads_loop env st poss acc"
proof (induction env st poss acc rule: super_reads_loop.induct)
  case (1 env st poss it i superreads transmission_vector)
  note u1 = super_reads_loop.simps [of env st poss it i superreads transmission_vector]
  note u2 = super_reads_loop.simps
              [of env "st\<lparr>input_column_iterator := x\<rparr>" poss it i superreads
                  transmission_vector]
  show ?case
  proof (cases "has_next it")
    case False
    then show ?thesis unfolding u1 u2 by simp
  next
    case True
    show ?thesis
    proof (cases "get_next it")
      case (Inl e)
      with True show ?thesis unfolding u1 u2 by simp
    next
      case (Inr p)
      obtain column it' where p: "p = (column, it')" by (cases p)
      show ?thesis
      proof (cases "column_super_reads env st poss i column superreads")
        case (Inl e)
        with True Inr p show ?thesis unfolding u1 u2 by simp
      next
        case r: (Inr q)
        obtain superreads' inh where q: "q = (superreads', inh)" by (cases q)
        from "1.IH" [OF True Inr p [symmetric] r q [symmetric]] True Inr p r q
        show ?thesis unfolding u1 u2 by simp
      qed
    qed
  qed
qed

lemma super_reads_loop_cursor:
  "super_reads_loop env st poss (it, i, sr, tv) = Inr (it', i', sr', tv')
     \<Longrightarrow> \<exists>x. it' = it\<lparr>n := x\<rparr>"
proof (induction env st poss "(it, i, sr, tv)" arbitrary: it i sr tv
       rule: super_reads_loop.induct)
  case (1 env st poss it i superreads transmission_vector)
  note u = super_reads_loop.simps [of env st poss it i superreads transmission_vector]
  show ?case
  proof (cases "has_next it")
    case False
    with "1.prems" have "it' = it" unfolding u by simp
    then have "it' = it\<lparr>n := n it\<rparr>" by simp
    then show ?thesis ..
  next
    case True
    with "1.prems" obtain column it1 superreads1 inh where
      gn: "get_next it = Inr (column, it1)"
      and cs: "column_super_reads env st poss i column superreads = Inr (superreads1, inh)"
      and rest: "super_reads_loop env st poss
                   (it1, Suc i, superreads1, transmission_vector @ [inh])
                 = Inr (it', i', sr', tv')"
      unfolding u by (auto split: sum.splits)
    from "1.hyps" [OF True gn refl cs refl rest] obtain x where "it' = it1\<lparr>n := x\<rparr>" ..
    moreover from gn have "it1 = it\<lparr>n := Suc (n it)\<rparr>"
      by (auto simp: get_next_def split: if_splits)
    ultimately have "it' = it\<lparr>n := x\<rparr>" by simp
    then show ?thesis ..
  qed
qed

lemma get_super_reads_state:
  assumes "get_super_reads env st out tv = Inr (st1, out1, tv1)"
  shows "\<exists>x. st1 = st\<lparr>input_column_iterator := (input_column_iterator st)\<lparr>n := x\<rparr>\<rparr>"
proof -
  let ?it = "jump_to_column (input_column_iterator st) 0"
  from assms have len: "length out = pedigree_size (pedigree st)"
    by (auto simp: get_super_reads_def split: if_splits)
  with assms obtain it' i sr sr' where
    st1: "st1 = st\<lparr>input_column_iterator := it'\<rparr>"
    and br: "(if index_backtrace_table st = []
              then (if has_next ?it then Inl InvariantViolation else Inr (?it, 0, sr, []))
              else super_reads_loop env st (positions ?it) (?it, 0, sr, []))
             = Inr (it', i, sr', tv1)"
    by (auto simp: get_super_reads_def Let_def bind_r_eq_Inr)
  have "\<exists>x. it' = ?it\<lparr>n := x\<rparr>"
  proof (cases "index_backtrace_table st = []")
    case True
    with br have "it' = ?it" by (simp split: if_splits)
    then have "it' = ?it\<lparr>n := n ?it\<rparr>" by simp
    then show ?thesis ..
  next
    case False
    with br show ?thesis by (auto dest: super_reads_loop_cursor)
  qed
  then obtain x where "it' = (input_column_iterator st)\<lparr>n := x\<rparr>"
    by (auto simp: jump_to_column_def)
  with st1 show ?thesis by blast
qed

text \<open>
  C7: a second call of \<^verbatim>\<open>get_super_reads\<close> on the table as the first call left it,
  with output read sets in the state the first call found them, returns what the first
  call returned: the same transmission vector (whatever the vector held before, since
  it is cleared) and the same read sets; the table is not changed by the second call.
\<close>

theorem get_super_reads_twice:
  assumes "get_super_reads env st out tv = Inr (st1, out1, tv1)"
  shows "get_super_reads env st1 out tv' = Inr (st1, out1, tv1)"
proof -
  from get_super_reads_state [OF assms] obtain x where
    st1: "st1 = st\<lparr>input_column_iterator := (input_column_iterator st)\<lparr>n := x\<rparr>\<rparr>" ..
  let ?it = "jump_to_column (input_column_iterator st) 0"
  from assms have len: "length out = pedigree_size (pedigree st)"
    by (auto simp: get_super_reads_def split: if_splits)
  with assms obtain it' i sr sr' where
    ns: "new_superreads (pedigree st) (unat (ploidy st)) [0..<pedigree_size (pedigree st)]
               = Inr sr"
    and br: "(if index_backtrace_table st = []
              then (if has_next ?it then Inl InvariantViolation else Inr (?it, 0, sr, []))
              else super_reads_loop env st (positions ?it) (?it, 0, sr, []))
             = Inr (it', i, sr', tv1)"
    and ol: "output_loop (unat (ploidy st)) sr' [0..<pedigree_size (pedigree st)] out = Inr out1"
    and st1': "st1 = st\<lparr>input_column_iterator := it'\<rparr>"
    by (auto simp: get_super_reads_def Let_def bind_r_eq_Inr)
  have j: "jump_to_column (input_column_iterator st1) 0 = ?it"
    by (simp add: st1 jump_to_column_def)
  have f: "pedigree st1 = pedigree st" "ploidy st1 = ploidy st"
    "index_backtrace_table st1 = index_backtrace_table st"
    by (simp_all add: st1)
  have l: "super_reads_loop env st1 = super_reads_loop env st"
    by (auto simp: st1 fun_eq_iff)
  have "st1\<lparr>input_column_iterator := it'\<rparr> = st1" by (simp add: st1')
  with len ns br ol show ?thesis
    unfolding get_super_reads_def j f l by (simp add: Let_def)
qed

text \<open>
  C7, witness: the table of one read over two columns; the second call, given a
  transmission vector that holds other values, returns the vector \<open>[0, 0]\<close> and the read
  sets of the first call.
\<close>

theorem get_super_reads_twice_witness:
  "\<exists>st st1 out1 tv1.
     snd (new_PedigreeDPTable (demo_env cost1) [demo_read [10, 20]] [1, 1] solo 2 False [2, 2]
            [10, 20] None) = Inr st
     \<and> get_super_reads (demo_env cost1) st [[]] [] = Inr (st1, out1, tv1)
     \<and> get_super_reads (demo_env cost1) st1 [[]] [7, 7] = Inr (st1, out1, tv1)
     \<and> tv1 = [0, 0] \<and> map (map name) out1 = [[''superread_0_0'', ''superread_1_0'']]"
proof -
  have "case snd (new_PedigreeDPTable (demo_env cost1) [demo_read [10, 20]] [1, 1] solo 2 False
                    [2, 2] [10, 20] None)
        of Inr st \<Rightarrow>
             (case get_super_reads (demo_env cost1) st [[]] [] of
                Inr (st1, out1, tv1) \<Rightarrow>
                  tv1 = [0, 0] \<and> map (map name) out1 = [[''superread_0_0'', ''superread_1_0'']]
              | Inl e \<Rightarrow> False)
         | Inl e \<Rightarrow> False"
    by code_simp
  then obtain st st1 out1 tv1 where
    run: "snd (new_PedigreeDPTable (demo_env cost1) [demo_read [10, 20]] [1, 1] solo 2 False
                 [2, 2] [10, 20] None) = Inr st"
    and first: "get_super_reads (demo_env cost1) st [[]] [] = Inr (st1, out1, tv1)"
    and vals: "tv1 = [0, 0]" "map (map name) out1 = [[''superread_0_0'', ''superread_1_0'']]"
    by (auto split: sum.splits prod.splits)
  from get_super_reads_twice [OF first]
  have "get_super_reads (demo_env cost1) st1 [[]] [7, 7] = Inr (st1, out1, tv1)" .
  with run first vals show ?thesis by (intro exI conjI)
qed

section \<open>The Mendelian conflict\<close>

lemma predecessor_value_not_conflict:
  "predecessor_value rcs c prev bpi cur i j \<noteq> Inl MendelianConflict"
  by (auto simp: predecessor_value_def bind_r_eq_Inl v2_at_def at_ub_def Let_def
      split: option.splits if_splits)

lemma predecessor_loop_not_conflict:
  "predecessor_loop rcs c prev bpi cur i js acc \<noteq> Inl MendelianConflict"
proof (induction js arbitrary: acc)
  case Nil
  then show ?case by simp
next
  case (Cons j js)
  obtain mn mi where acc: "acc = (mn, mi)" by (cases acc)
  show ?case
    using Cons.IH predecessor_value_not_conflict [of rcs c prev bpi cur i j]
    by (auto simp: acc bind_r_eq_Inl)
qed

lemma v2_set_not_conflict: "v2_set t a b x \<noteq> Inl MendelianConflict"
  by (simp add: v2_set_def)

lemma v2_at_not_conflict: "v2_at t a b \<noteq> Inl MendelianConflict"
  by (simp add: v2_at_def)

lemma at_ub_not_conflict: "at_ub xs i \<noteq> Inl MendelianConflict"
  by (simp add: at_ub_def)

lemma at_chk_not_conflict: "at_chk xs i \<noteq> Inl MendelianConflict"
  by (simp add: at_chk_def)

lemma transmission_loop_found:
  "transmission_loop env rcs c prev bpi ci T ccs is (dp, mri, found) = r \<Longrightarrow>
     r \<noteq> Inl MendelianConflict \<and>
     (\<forall>dp' mri' found'. r = Inr (dp', mri', found') \<longrightarrow>
        (found' = (found \<or> (\<exists>i \<in> set is. get_cost env (ccs ! i) < uint_max)))
        \<and> (\<forall>i \<in> set is. i < length ccs))"
proof (induction "is" arbitrary: dp mri found r)
  case Nil
  then show ?case by auto
next
  case (Cons i "is")
  show ?case
  proof (cases "at_ub ccs i")
    case (Inl e)
    with Cons.prems at_ub_not_conflict [of ccs i] show ?thesis by auto
  next
    case (Inr cc)
    then have i: "i < length ccs" and cc: "cc = ccs ! i" by (simp_all add: at_ub_Inr)
    show ?thesis
    proof (cases "predecessor_loop rcs c prev bpi (get_cost env cc) i [0..<T] (uint_max, 0)")
      case (Inl e)
      with Cons.prems Inr predecessor_loop_not_conflict
             [of rcs c prev bpi "get_cost env cc" i "[0..<T]" "(uint_max, 0)"]
      show ?thesis by (auto simp: Let_def)
    next
      case pl: (Inr p)
      obtain mn mi where p: "p = (mn, mi)" by (cases p)
      show ?thesis
      proof (cases "v2_set dp ci i mn")
        case (Inl e)
        with Cons.prems Inr pl p v2_set_not_conflict [of dp ci i mn]
        show ?thesis by (auto simp: Let_def)
      next
        case vs: (Inr dp1)
        from Cons.prems Inr pl p vs
        have rest: "transmission_loop env rcs c prev bpi ci T ccs is
                      (dp1, mri[i := of_nat mi], found \<or> get_cost env cc < uint_max) = r"
          by (simp add: Let_def)
        from Cons.IH [OF rest] i cc show ?thesis by auto
      qed
    qed
  qed
qed

lemma optimum_loop_not_conflict:
  "optimum_loop dp ci idx mri is opt \<noteq> Inl MendelianConflict"
proof (induction "is" arbitrary: opt)
  case Nil
  then show ?case by simp
next
  case (Cons i "is")
  obtain a b c d where opt: "opt = (a, b, c, d)" by (cases opt)
  show ?case
    using Cons.IH v2_at_not_conflict [of dp ci i] at_ub_not_conflict [of mri i]
    by (auto simp: opt bind_r_eq_Inl)
qed

lemma projection_loop_not_conflict:
  "projection_loop dp ci fi idx mri is tabs \<noteq> Inl MendelianConflict"
proof (induction "is" arbitrary: tabs)
  case Nil
  then show ?case by simp
next
  case (Cons i "is")
  obtain p ib tb where tabs: "tabs = (p, ib, tb)" by (cases tabs)
  show ?case
    using Cons.IH v2_at_not_conflict v2_set_not_conflict at_ub_not_conflict [of mri i]
    by (auto simp: tabs bind_r_eq_Inl)
qed

lemma no_finite_cost_take:
  assumes "\<forall>i \<in> set [0..<T]. i < length ccs"
  shows "no_finite_cost (map (get_cost env) (take T ccs))
           = (\<not> (\<exists>i \<in> set [0..<T]. get_cost env (ccs ! i) < uint_max))"
proof -
  from assms have T: "T \<le> length ccs" by (cases T) auto
  then have "length (map (get_cost env) (take T ccs)) = T" by simp
  then show ?thesis
    by (auto simp: no_finite_cost_def list_all_length)
qed

lemma process_position_result:
  assumes "process_position env rcs c prev T s (ccs, dp, tabs, opt) = r"
  shows "(r = Inl MendelianConflict \<longrightarrow>
            no_finite_cost (map (get_cost env) (take T (advance_cost_computers env s ccs))))
       \<and> (\<forall>ccs' dp' tabs' opt'. r = Inr (ccs', dp', tabs', opt') \<longrightarrow>
            ccs' = advance_cost_computers env s ccs
            \<and> \<not> no_finite_cost (map (get_cost env) (take T ccs')))"
proof -
  let ?ccs = "advance_cost_computers env s ccs"
  let ?bpi = "if c > 0 then unat (get_backward_projection s) else 0"
  let ?tl = "transmission_loop env rcs c prev ?bpi (unat (get_index s)) T ?ccs [0..<T]
               (dp, replicate T 0, False)"
  show ?thesis
  proof (cases ?tl)
    case (Inl e)
    with transmission_loop_found [OF refl, of env rcs c prev ?bpi "unat (get_index s)" T ?ccs
           "[0..<T]" dp "replicate T 0" False]
    have "e \<noteq> MendelianConflict" by auto
    with Inl assms show ?thesis by (auto simp: process_position_def Let_def)
  next
    case (Inr q)
    obtain dp1 mri found where q: "q = (dp1, mri, found)" by (cases q)
    from transmission_loop_found [OF Inr [unfolded q]]
    have found: "found = (\<exists>i \<in> set [0..<T]. get_cost env (?ccs ! i) < uint_max)"
      and len: "\<forall>i \<in> set [0..<T]. i < length ?ccs" by simp_all
    note nf = no_finite_cost_take [OF len, of env]
    show ?thesis
    proof (cases found)
      case False
      with Inr q assms have "r = Inl MendelianConflict"
        by (simp add: process_position_def Let_def)
      with False found nf show ?thesis by simp
    next
      case True
      show ?thesis
      proof (cases tabs)
        case None
        with True Inr q assms found nf
          optimum_loop_not_conflict [of dp1 "unat (get_index s)" "get_index s" mri "[0..<T]" opt]
        show ?thesis
          by (auto simp: process_position_def Let_def bind_r_eq_Inr bind_r_eq_Inl)
      next
        case (Some t)
        with True Inr q assms found nf
          projection_loop_not_conflict [of dp1 "unat (get_index s)"
            "unat (get_forward_projection s)" "get_index s" mri "[0..<T]" t]
        show ?thesis
          by (auto simp: process_position_def Let_def bind_r_eq_Inr bind_r_eq_Inl)
      qed
    qed
  qed
qed

lemma process_position_conflict:
  "process_position env rcs c prev T s (ccs, dp, tabs, opt) = Inl MendelianConflict \<Longrightarrow>
     no_finite_cost (map (get_cost env) (take T (advance_cost_computers env s ccs)))"
  using process_position_result [OF refl, of env rcs c prev T s ccs dp tabs opt] by simp

lemma process_position_Inr:
  "process_position env rcs c prev T s (ccs, dp, tabs, opt) = Inr (ccs', dp', tabs', opt') \<Longrightarrow>
     ccs' = advance_cost_computers env s ccs
     \<and> \<not> no_finite_cost (map (get_cost env) (take T ccs'))"
  using process_position_result [OF refl, of env rcs c prev T s ccs dp tabs opt] by blast

lemma costs_at_Cons_0:
  "costs_at env T ccs (s # ss) 0 = map (get_cost env) (take T (advance_cost_computers env s ccs))"
  by (simp add: costs_at_def)

lemma costs_at_Cons_Suc:
  "costs_at env T ccs (s # ss) (Suc m) = costs_at env T (advance_cost_computers env s ccs) ss m"
  by (simp add: costs_at_def)

lemma column_walk_conflict:
  assumes "column_walk env rcs c prev T ss (ccs, dp, tabs, opt) = r"
  shows "(r = Inl MendelianConflict \<longrightarrow>
            (\<exists>m < length ss. no_finite_cost (costs_at env T ccs ss m)))
       \<and> ((\<exists>x. r = Inr x) \<longrightarrow>
            (\<forall>m < length ss. \<not> no_finite_cost (costs_at env T ccs ss m)))"
  using assms
proof (induction ss arbitrary: ccs dp tabs opt r)
  case Nil
  then show ?case by auto
next
  case (Cons s ss)
  let ?pp = "process_position env rcs c prev T s (ccs, dp, tabs, opt)"
  show ?case
  proof (cases ?pp)
    case (Inl e)
    with Cons.prems have r: "r = Inl e" by simp
    show ?thesis
    proof (cases "e = MendelianConflict")
      case True
      with Inl have "no_finite_cost (costs_at env T ccs (s # ss) 0)"
        by (simp add: costs_at_Cons_0 process_position_conflict)
      then have "\<exists>m < length (s # ss). no_finite_cost (costs_at env T ccs (s # ss) m)"
        by (intro exI [of _ 0]) simp
      with r show ?thesis by simp
    next
      case False
      with r show ?thesis by simp
    qed
  next
    case (Inr q)
    obtain ccs1 dp1 tabs1 opt1 where q: "q = (ccs1, dp1, tabs1, opt1)" by (cases q)
    from process_position_Inr [OF Inr [unfolded q]]
    have ccs1: "ccs1 = advance_cost_computers env s ccs"
      and fin: "\<not> no_finite_cost (costs_at env T ccs (s # ss) 0)"
      by (auto simp: costs_at_Cons_0)
    from Cons.prems Inr q
    have rest: "column_walk env rcs c prev T ss (ccs1, dp1, tabs1, opt1) = r" by simp
    note ih = Cons.IH [OF rest]
    have a: "r = Inl MendelianConflict \<longrightarrow>
            (\<exists>m < length (s # ss). no_finite_cost (costs_at env T ccs (s # ss) m))"
    proof
      assume "r = Inl MendelianConflict"
      with ih obtain m where "m < length ss" "no_finite_cost (costs_at env T ccs1 ss m)"
        by auto
      then have "Suc m < length (s # ss)"
        "no_finite_cost (costs_at env T ccs (s # ss) (Suc m))"
        by (simp_all add: costs_at_Cons_Suc ccs1)
      then show "\<exists>m < length (s # ss). no_finite_cost (costs_at env T ccs (s # ss) m)"
        by blast
    qed
    have b: "(\<exists>x. r = Inr x) \<longrightarrow>
            (\<forall>m < length (s # ss). \<not> no_finite_cost (costs_at env T ccs (s # ss) m))"
    proof (intro impI allI)
      fix m assume "\<exists>x. r = Inr x" and m: "m < length (s # ss)"
      with ih have all: "\<forall>m < length ss. \<not> no_finite_cost (costs_at env T ccs1 ss m)" by simp
      show "\<not> no_finite_cost (costs_at env T ccs (s # ss) m)"
      proof (cases m)
        case 0
        with fin show ?thesis by simp
      next
        case (Suc m')
        with m all show ?thesis by (simp add: costs_at_Cons_Suc ccs1)
      qed
    qed
    from a b show ?thesis by simp
  qed
qed

section \<open>What a walk changes\<close>

lemma process_position_Some:
  "process_position env rcs c prev T s (ccs, dp, Some t, opt) =
     (case process_position env rcs c prev T s (ccs, dp, Some t, opt0) of
        Inl e \<Rightarrow> Inl e
      | Inr (ccs', dp', tabs', opt1) \<Rightarrow> Inr (ccs', dp', tabs', opt))"
  by (simp add: process_position_def Let_def bind_r_def split: sum.splits prod.splits)

lemma process_position_Some_tabs:
  "process_position env rcs c prev T s (ccs, dp, Some t, opt) = Inr (ccs', dp', tabs', opt')
     \<Longrightarrow> tabs' \<noteq> None \<and> opt' = opt"
  by (auto simp: process_position_def Let_def bind_r_eq_Inr split: if_splits)

lemma process_position_None_tabs:
  "process_position env rcs c prev T s (ccs, dp, None, opt) = Inr (ccs', dp', tabs', opt')
     \<Longrightarrow> tabs' = None"
  by (auto simp: process_position_def Let_def bind_r_eq_Inr split: if_splits)

lemma column_walk_None_tabs:
  "column_walk env rcs c prev T ss (ccs, dp, None, opt) = Inr (ccs', dp', tabs', opt')
     \<Longrightarrow> tabs' = None"
proof (induction ss arbitrary: ccs dp opt)
  case Nil
  then show ?case by simp
next
  case (Cons s ss)
  from Cons.prems obtain ccs1 dp1 tabs1 opt1 where
    pp: "process_position env rcs c prev T s (ccs, dp, None, opt) = Inr (ccs1, dp1, tabs1, opt1)"
    and rest: "column_walk env rcs c prev T ss (ccs1, dp1, tabs1, opt1) = Inr (ccs', dp', tabs', opt')"
    by (auto simp: bind_r_eq_Inr)
  from process_position_None_tabs [OF pp] rest Cons.IH show ?case by simp
qed

lemma column_walk_Some_tabs:
  "column_walk env rcs c prev T ss (ccs, dp, Some t, opt) = Inr (ccs', dp', tabs', opt')
     \<Longrightarrow> tabs' \<noteq> None \<and> opt' = opt"
proof (induction ss arbitrary: ccs dp t)
  case Nil
  then show ?case by (cases t) auto
next
  case (Cons s ss)
  from Cons.prems obtain ccs1 dp1 tabs1 opt1 where
    pp: "process_position env rcs c prev T s (ccs, dp, Some t, opt) = Inr (ccs1, dp1, tabs1, opt1)"
    and rest: "column_walk env rcs c prev T ss (ccs1, dp1, tabs1, opt1) = Inr (ccs', dp', tabs', opt')"
    by (auto simp: bind_r_eq_Inr)
  from process_position_Some_tabs [OF pp] obtain t1 where "tabs1 = Some t1" "opt1 = opt"
    by auto
  with rest Cons.IH show ?case by simp
qed

lemma column_walk_Some:
  "column_walk env rcs c prev T ss (ccs, dp, Some t, opt) =
     (case column_walk env rcs c prev T ss (ccs, dp, Some t, opt0) of
        Inl e \<Rightarrow> Inl e
      | Inr (ccs', dp', tabs', opt1) \<Rightarrow> Inr (ccs', dp', tabs', opt))"
proof (induction ss arbitrary: ccs dp t)
  case Nil
  then show ?case by simp
next
  case (Cons s ss)
  show ?case
  proof (cases "process_position env rcs c prev T s (ccs, dp, Some t, opt0)")
    case (Inl e)
    then show ?thesis
      by (simp add: process_position_Some [of env rcs c prev T s ccs dp t opt opt0])
  next
    case (Inr q)
    obtain ccs1 dp1 tabs1 o1 where q: "q = (ccs1, dp1, tabs1, o1)" by (cases q)
    from process_position_Some_tabs [OF Inr [unfolded q]] obtain t1 where
      t1: "tabs1 = Some t1" and o1: "o1 = opt0" by auto
    from Inr q have "process_position env rcs c prev T s (ccs, dp, Some t, opt)
                       = Inr (ccs1, dp1, tabs1, opt)"
      by (simp add: process_position_Some [of env rcs c prev T s ccs dp t opt opt0])
    with Inr q t1 o1 Cons.IH [of ccs1 dp1 t1] show ?thesis by simp
  qed
qed

lemma new_cost_computers_same_inputs:
  "same_inputs st st' \<Longrightarrow>
     new_cost_computers env st' col c is = new_cost_computers env st col c is"
  by (induction "is") (simp_all add: same_inputs_def)

lemma new_cost_computers_not_conflict:
  "new_cost_computers env st col c is \<noteq> Inl MendelianConflict"
  by (induction "is") (auto simp: bind_r_eq_Inl at_ub_def at_chk_def)

lemma transmission_configurations_not_conflict:
  "transmission_configurations p \<noteq> Inl MendelianConflict"
  by (simp add: transmission_configurations_def)

lemma get_column_count_same_inputs:
  "same_inputs st st' \<Longrightarrow>
     get_column_count (input_column_iterator st') = get_column_count (input_column_iterator st)"
  by (simp add: same_inputs_def get_column_count_def)

lemma walk_column_same_inputs:
  "same_inputs st st' \<Longrightarrow>
     walk_column env st' c col prev ix T opt = walk_column env st c col prev ix T opt"
  by (simp add: walk_column_def new_cost_computers_same_inputs get_column_count_same_inputs)
     (simp add: same_inputs_def)

lemma walk_column_inner:
  assumes "Suc c < get_column_count (input_column_iterator st)"
  shows "walk_column env st c col prev ix T opt =
     (case walk_column env st c col prev ix T opt0 of
        Inl e \<Rightarrow> Inl e
      | Inr (tabs, opt1) \<Rightarrow> Inr (tabs, opt))"
proof (cases "new_cost_computers env st col c [0..<T]")
  case (Inl e)
  then show ?thesis by (simp add: walk_column_def)
next
  case (Inr ccs)
  let ?t = "(Vector2D (forward_projection_size ix) T uint_max,
             Vector2D (forward_projection_size ix) T uint_max,
             Vector2D (forward_projection_size ix) T uint_max)"
  from assms have ft: "fresh_tables c (get_column_count (input_column_iterator st))
                         (forward_projection_size ix) T = Some ?t"
    by (simp add: fresh_tables_def)
  have cw: "column_walk env (recombcost st) c prev T (get_iterator ix)
              (ccs, Vector2D (column_size ix) T 0, Some ?t, opt) =
     (case column_walk env (recombcost st) c prev T (get_iterator ix)
              (ccs, Vector2D (column_size ix) T 0, Some ?t, opt0) of
        Inl e \<Rightarrow> Inl e
      | Inr (ccs', dp', tabs', opt1) \<Rightarrow> Inr (ccs', dp', tabs', opt))"
    by (rule column_walk_Some)
  show ?thesis
    unfolding walk_column_def Inr ft bind_r_simps cw
    by (simp add: bind_r_def split: sum.splits prod.splits)
qed

lemma walk_column_inner_tabs:
  assumes "Suc c < get_column_count (input_column_iterator st)"
    and "walk_column env st c col prev ix T opt = Inr (tabs, opt')"
  shows "tabs \<noteq> None \<and> opt' = opt"
  using assms
  by (auto simp: walk_column_def fresh_tables_def bind_r_eq_Inr dest: column_walk_Some_tabs)

lemma walk_column_last_tabs:
  assumes "\<not> Suc c < get_column_count (input_column_iterator st)"
    and "walk_column env st c col prev ix T opt = Inr (tabs, opt')"
  shows "tabs = None"
  using assms
  by (auto simp: walk_column_def fresh_tables_def bind_r_eq_Inr dest: column_walk_None_tabs)

lemma indexer_of_same_inputs:
  "same_inputs st st' \<Longrightarrow> indexer_of env st' c = indexer_of env st c"
  by (simp add: indexer_of_def same_inputs_def)

lemma original_tables_same_inputs:
  "same_inputs st st' \<Longrightarrow> original_tables env st' c = original_tables env st c"
proof (induction c)
  case 0
  then show ?case
    by (simp add: walk_column_same_inputs indexer_of_same_inputs) (simp add: same_inputs_def)
next
  case (Suc c)
  then have "original_tables env st' c = original_tables env st c" by simp
  moreover from Suc.prems have "pedigree st' = pedigree st"
    "columns (input_column_iterator st') = columns (input_column_iterator st)"
    by (simp_all add: same_inputs_def)
  ultimately show ?case
    using Suc.prems by (simp add: walk_column_same_inputs indexer_of_same_inputs)
qed

lemma walk_costs_same_inputs:
  "same_inputs st st' \<Longrightarrow> walk_costs env st' c = walk_costs env st c"
  by (simp add: walk_costs_def new_cost_computers_same_inputs indexer_of_same_inputs)
     (simp add: same_inputs_def)

lemma conflict_position_same_inputs:
  "same_inputs st st' \<Longrightarrow> conflict_position env st' c = conflict_position env st c"
  by (simp add: conflict_position_def walk_costs_same_inputs)

lemma walk_column_conflict:
  assumes "transmission_configurations (pedigree st) = Inr T"
    and "walk_column env st c (columns (input_column_iterator st) ! c) prev
           (indexer_of env st c) T opt = r"
  shows "(r = Inl MendelianConflict \<longrightarrow> conflict_position env st c)
       \<and> ((\<exists>x. r = Inr x) \<longrightarrow> \<not> conflict_position env st c)"
proof (cases "new_cost_computers env st (columns (input_column_iterator st) ! c) c [0..<T]")
  case (Inl e)
  with assms new_cost_computers_not_conflict
         [of env st "columns (input_column_iterator st) ! c" c "[0..<T]"]
  show ?thesis by (auto simp: walk_column_def)
next
  case (Inr ccs)
  let ?ss = "get_iterator (indexer_of env st c)"
  let ?cw = "column_walk env (recombcost st) c prev T ?ss
               (ccs, Vector2D (column_size (indexer_of env st c)) T 0,
                fresh_tables c (get_column_count (input_column_iterator st))
                  (forward_projection_size (indexer_of env st c)) T, opt)"
  note cw = column_walk_conflict [OF refl, of env "recombcost st" c prev T ?ss ccs
              "Vector2D (column_size (indexer_of env st c)) T 0"
              "fresh_tables c (get_column_count (input_column_iterator st))
                  (forward_projection_size (indexer_of env st c)) T" opt]
  have cp: "conflict_position env st c = (\<exists>m < length ?ss. no_finite_cost (costs_at env T ccs ?ss m))"
    using assms(1) Inr
    by (auto simp: conflict_position_def walk_costs_def list_ex_iff)
  from assms(2) Inr have r: "r = bind_r ?cw (\<lambda>(ccs, dp, tabs, opt'). Inr (tabs, opt'))"
    by (simp add: walk_column_def)
  show ?thesis
  proof (cases ?cw)
    case e: (Inl e)
    with r have re: "r = Inl e" by simp
    from cw e have "e = MendelianConflict \<longrightarrow>
        (\<exists>m < length ?ss. no_finite_cost (costs_at env T ccs ?ss m))"
      by simp
    with re cp show ?thesis by simp
  next
    case q: (Inr q)
    from q have ex: "\<exists>x. ?cw = Inr x" by blast
    from cw ex have nc: "\<forall>m < length ?ss. \<not> no_finite_cost (costs_at env T ccs ?ss m)"
      by blast
    from r q have "r \<noteq> Inl MendelianConflict" by (cases q) simp
    with nc cp show ?thesis by simp
  qed
qed

section \<open>What \<^verbatim>\<open>compute_column\<close> computes\<close>

lemma set_optimum_get_optimum [simp]: "set_optimum st (get_optimum st) = st"
  by (simp add: set_optimum_def get_optimum_def)

lemma get_optimum_set_optimum [simp]: "get_optimum (set_optimum st opt) = opt"
  by (cases opt) (simp add: set_optimum_def get_optimum_def)

lemma set_optimum_fields [simp]:
  "input_column_iterator (set_optimum st opt) = input_column_iterator st"
  "projection_column_table (set_optimum st opt) = projection_column_table st"
  "index_backtrace_table (set_optimum st opt) = index_backtrace_table st"
  "transmission_backtrace_table (set_optimum st opt) = transmission_backtrace_table st"
  "indexers (set_optimum st opt) = indexers st"
  "index_path (set_optimum st opt) = index_path st"
  "same_inputs st0 (set_optimum st opt) = same_inputs st0 st"
  by (cases opt; simp add: set_optimum_def same_inputs_def)+

lemma store_tables_fields [simp]:
  "input_column_iterator (store_tables st c tabs) = input_column_iterator st"
  "indexers (store_tables st c tabs) = indexers st"
  "index_path (store_tables st c tabs) = index_path st"
  "get_optimum (store_tables st c tabs) = get_optimum st"
  "same_inputs st0 (store_tables st c tabs) = same_inputs st0 st"
  "length (projection_column_table (store_tables st c tabs)) = length (projection_column_table st)"
  "length (index_backtrace_table (store_tables st c tabs)) = length (index_backtrace_table st)"
  "length (transmission_backtrace_table (store_tables st c tabs))
     = length (transmission_backtrace_table st)"
  by (simp_all add: store_tables_def same_inputs_def get_optimum_def
      split: option.splits prod.splits)

lemma store_tables_None [simp]: "store_tables st c None = st"
  by (simp add: store_tables_def)

lemma delete_column_fields [simp]:
  "input_column_iterator (delete_column st c) = input_column_iterator st"
  "indexers (delete_column st c) = indexers st"
  "index_path (delete_column st c) = index_path st"
  "get_optimum (delete_column st c) = get_optimum st"
  "same_inputs st0 (delete_column st c) = same_inputs st0 st"
  "length (projection_column_table (delete_column st c)) = length (projection_column_table st)"
  "length (index_backtrace_table (delete_column st c)) = length (index_backtrace_table st)"
  "length (transmission_backtrace_table (delete_column st c))
     = length (transmission_backtrace_table st)"
  by (simp_all add: delete_column_def same_inputs_def get_optimum_def)

lemma iterator_update_fields [simp]:
  "get_optimum (st\<lparr>input_column_iterator := it\<rparr>) = get_optimum st"
  "same_inputs st0 (st\<lparr>input_column_iterator := (input_column_iterator st)\<lparr>n := x\<rparr>\<rparr>)
     = same_inputs st0 st"
  "get_column_count (it\<lparr>n := x\<rparr>) = get_column_count it"
  by (simp_all add: same_inputs_def get_optimum_def get_column_count_def)

lemma three_lengths_simps [simp]:
  "three_lengths (store_tables st c tabs) m = three_lengths st m"
  "three_lengths (delete_column st c) m = three_lengths st m"
  "three_lengths (set_optimum st opt) m = three_lengths st m"
  "three_lengths (st\<lparr>input_column_iterator := it\<rparr>) m = three_lengths st m"
  "three_lengths (st\<lparr>index_path := ip\<rparr>) m = three_lengths st m"
  "three_lengths (st\<lparr>indexers := ixs\<rparr>) m = three_lengths st m"
  by (simp_all add: three_lengths_def)

lemma tables_at_store:
  assumes "three_lengths st m" and "c < m"
  shows "tables_at (store_tables st c (Some (p, ib, tb))) j
           = (if j = c then (Some p, Some ib, Some tb) else tables_at st j)"
  using assms by (simp add: tables_at_def store_tables_def three_lengths_def)

lemma tables_at_delete:
  assumes "three_lengths st m" and "c < m"
  shows "tables_at (delete_column st c) j
           = (if j = c then (None, None, None) else tables_at st j)"
  using assms by (simp add: tables_at_def delete_column_def three_lengths_def)

lemma tables_at_simps [simp]:
  "tables_at (set_optimum st opt) j = tables_at st j"
  "tables_at (st\<lparr>input_column_iterator := it\<rparr>) j = tables_at st j"
  "tables_at (st\<lparr>index_path := ip\<rparr>) j = tables_at st j"
  "tables_at (st\<lparr>indexers := ixs\<rparr>) j = tables_at st j"
  by (simp_all add: tables_at_def)

lemma compute_column_present:
  assumes "c < get_column_count (input_column_iterator st)"
    and "three_lengths st (get_column_count (input_column_iterator st))"
    and "tables_at st c = (Some p, Some ib, Some tb)"
  shows "compute_column env st c col = Inr st"
  using assms
  by (simp add: compute_column_def at_ub_def tables_at_def three_lengths_def)

lemma compute_column_fresh:
  assumes c: "c < get_column_count (input_column_iterator st)"
    and len: "three_lengths st (get_column_count (input_column_iterator st))"
      "length (indexers st) = get_column_count (input_column_iterator st)"
    and none: "projection_column_table st ! c = None"
    and ix: "indexers st ! c = Some ix"
    and col: "col = None \<or> col = Some (columns (input_column_iterator st) ! c)"
  shows "compute_column env st c col =
     bind_r (transmission_configurations (pedigree st)) (\<lambda>T.
     bind_r (walk_column env st c (columns (input_column_iterator st) ! c)
               (if 0 < c then projection_column_table st ! (c - 1) else None) ix T
               (get_optimum st))
       (\<lambda>(tabs, opt).
          Inr (store_tables
                 (set_optimum
                    (st\<lparr>input_column_iterator :=
                          (case col of None \<Rightarrow> (input_column_iterator st)\<lparr>n := Suc c\<rparr>
                                     | Some x \<Rightarrow> input_column_iterator st)\<rparr>) opt)
                 c tabs)))"
proof -
  from c len have l: "c < length (projection_column_table st)" "c < length (indexers st)"
    "c - 1 < length (projection_column_table st)"
    by (simp_all add: three_lengths_def)
  from c have cc: "c < length (columns (input_column_iterator st))"
    by (simp add: get_column_count_def)
  from col show ?thesis
  proof
    assume "col = None"
    with c l cc none ix show ?thesis
      by (simp add: compute_column_def at_ub_def fetch_column_def previous_projection_def
          get_next_def jump_to_column_def has_next_def)
  next
    assume "col = Some (columns (input_column_iterator st) ! c)"
    with c l cc none ix show ?thesis
      by (simp add: compute_column_def at_ub_def fetch_column_def previous_projection_def)
  qed
qed

lemma holds_original_D:
  assumes "holds_original env st j"
  obtains p ib tb where "original_tables env st j = Inr (Some (p, ib, tb))"
    and "tables_at st j = (Some p, Some ib, Some tb)"
  using assms by (auto simp: holds_original_def split: sum.splits option.splits)

lemma holds_original_I:
  "original_tables env st j = Inr (Some (p, ib, tb)) \<Longrightarrow>
   tables_at st j = (Some p, Some ib, Some tb) \<Longrightarrow> holds_original env st j"
  by (simp add: holds_original_def)

text \<open>
  A column that is not the last one, whose tables are absent, whose indexer is the one
  of the forward pass and whose predecessor holds its original tables: \<^verbatim>\<open>compute_column\<close>
  computes the original tables of the column and stores them, or fails as the forward
  sweep fails on that column.
\<close>

lemma compute_column_inner:
  assumes c: "Suc c < get_column_count (input_column_iterator st)"
    and len: "three_lengths st (get_column_count (input_column_iterator st))"
      "length (indexers st) = get_column_count (input_column_iterator st)"
    and none: "projection_column_table st ! c = None"
    and ix: "indexers st ! c = Some (indexer_of env st c)"
    and col: "col = None \<or> col = Some (columns (input_column_iterator st) ! c)"
    and before: "0 < c \<longrightarrow> holds_original env st (c - 1)"
  shows "compute_column env st c col =
     (case original_tables env st c of
        Inl e \<Rightarrow> Inl e
      | Inr tabs \<Rightarrow>
          Inr (store_tables
                 (st\<lparr>input_column_iterator :=
                       (case col of None \<Rightarrow> (input_column_iterator st)\<lparr>n := Suc c\<rparr>
                                  | Some x \<Rightarrow> input_column_iterator st)\<rparr>)
                 c tabs))"
proof -
  let ?n = "get_column_count (input_column_iterator st)"
  let ?cols = "columns (input_column_iterator st)"
  let ?prev = "if 0 < c then projection_column_table st ! (c - 1) else None"
  let ?it = "case col of None \<Rightarrow> (input_column_iterator st)\<lparr>n := Suc c\<rparr>
                        | Some x \<Rightarrow> input_column_iterator st"
  from c have c': "c < ?n" by simp
  note cf = compute_column_fresh [OF c' len none ix col, of env]
  have ot: "original_tables env st c =
     bind_r (transmission_configurations (pedigree st)) (\<lambda>T.
     bind_r (walk_column env st c (?cols ! c) ?prev (indexer_of env st c) T cleared_optimum)
       (\<lambda>(tabs, opt). Inr tabs))"
  proof (cases c)
    case 0
    then show ?thesis by simp
  next
    case (Suc c0)
    with before have "holds_original env st c0" by simp
    then obtain p ib tb where o: "original_tables env st c0 = Inr (Some (p, ib, tb))"
      and t: "tables_at st c0 = (Some p, Some ib, Some tb)"
      by (rule holds_original_D)
    from t have "projection_column_table st ! c0 = Some p" by (simp add: tables_at_def)
    with o Suc show ?thesis by simp
  qed
  show ?thesis
  proof (cases "transmission_configurations (pedigree st)")
    case (Inl e)
    with cf ot show ?thesis by simp
  next
    case (Inr T)
    note wi = walk_column_inner [OF c, of env "?cols ! c" ?prev "indexer_of env st c" T
                "get_optimum st" cleared_optimum]
    show ?thesis
    proof (cases "walk_column env st c (?cols ! c) ?prev (indexer_of env st c) T cleared_optimum")
      case e: (Inl e)
      with wi have "walk_column env st c (?cols ! c) ?prev (indexer_of env st c) T (get_optimum st)
                      = Inl e" by simp
      with cf ot Inr e show ?thesis by simp
    next
      case q: (Inr q)
      obtain tabs opt1 where qq: "q = (tabs, opt1)" by (cases q)
      with wi q have "walk_column env st c (?cols ! c) ?prev (indexer_of env st c) T
                        (get_optimum st) = Inr (tabs, get_optimum st)" by simp
      moreover have "set_optimum (st\<lparr>input_column_iterator := ?it\<rparr>) (get_optimum st)
                       = st\<lparr>input_column_iterator := ?it\<rparr>"
        by (simp add: set_optimum_def get_optimum_def)
      ultimately show ?thesis using cf ot Inr q qq by simp
    qed
  qed
qed

lemma original_tables_inner_Some:
  assumes "Suc c < get_column_count (input_column_iterator st)"
    and "original_tables env st c = Inr tabs"
  shows "tabs \<noteq> None"
proof -
  from assms(2) obtain prev T opt where
    "walk_column env st c (columns (input_column_iterator st) ! c) prev (indexer_of env st c) T
       cleared_optimum = Inr (tabs, opt)"
    by (cases c) (auto simp: bind_r_eq_Inr split: option.splits)
  from walk_column_inner_tabs [OF assms(1) this] show ?thesis by simp
qed

section \<open>The forward pass\<close>

lemma holds_original_transfer:
  "same_inputs st st' \<Longrightarrow> tables_at st' j = tables_at st j \<Longrightarrow>
     holds_original env st' j = holds_original env st j"
  by (simp add: holds_original_def original_tables_same_inputs
      split: sum.splits option.splits prod.splits)

lemma original_tables_conflict:
  assumes "original_tables env st c = r"
    and "0 < c \<longrightarrow> (\<exists>t. original_tables env st (c - 1) = Inr (Some t))"
  shows "(r = Inl MendelianConflict \<longrightarrow> conflict_position env st c)
       \<and> ((\<exists>x. r = Inr x) \<longrightarrow> \<not> conflict_position env st c)"
proof -
  obtain prev where r: "r =
     bind_r (transmission_configurations (pedigree st)) (\<lambda>T.
     bind_r (walk_column env st c (columns (input_column_iterator st) ! c) prev
               (indexer_of env st c) T cleared_optimum)
       (\<lambda>(tabs, opt). Inr tabs))"
  proof (cases c)
    case 0
    with assms(1) that [of None] show ?thesis by simp
  next
    case (Suc c0)
    with assms(2) obtain p ib tb where "original_tables env st c0 = Inr (Some (p, ib, tb))"
      by auto
    with assms(1) Suc that [of "Some p"] show ?thesis by simp
  qed
  show ?thesis
  proof (cases "transmission_configurations (pedigree st)")
    case (Inl e)
    with r transmission_configurations_not_conflict [of "pedigree st"] show ?thesis by simp
  next
    case (Inr T)
    let ?w = "walk_column env st c (columns (input_column_iterator st) ! c) prev
                (indexer_of env st c) T cleared_optimum"
    note wc = walk_column_conflict [OF Inr refl, of env c prev cleared_optimum]
    show ?thesis
    proof (cases ?w)
      case e: (Inl e)
      with r Inr have "r = Inl e" by simp
      with wc e show ?thesis by simp
    next
      case q: (Inr q)
      then have "\<exists>x. ?w = Inr x" by blast
      with wc have nc: "\<not> conflict_position env st c" by blast
      from r Inr q have "r \<noteq> Inl MendelianConflict" by (cases q) simp
      with nc show ?thesis by simp
    qed
  qed
qed

lemma drop_previous_column_fields [simp]:
  "input_column_iterator (drop_previous_column k c st) = input_column_iterator st"
  "indexers (drop_previous_column k c st) = indexers st"
  "index_path (drop_previous_column k c st) = index_path st"
  "get_optimum (drop_previous_column k c st) = get_optimum st"
  "same_inputs st0 (drop_previous_column k c st) = same_inputs st0 st"
  "three_lengths (drop_previous_column k c st) m = three_lengths st m"
  by (simp_all add: drop_previous_column_def)

lemma tables_at_drop:
  assumes "three_lengths st m" and "c < m"
  shows "tables_at (drop_previous_column k c st) j =
           (if k > 1 \<and> c > 0 \<and> (c - 1) mod k \<noteq> 0 \<and> j = c - 1 then (None, None, None)
            else tables_at st j)"
  using assms by (auto simp: drop_previous_column_def tables_at_delete [of st m])

lemma peek_next_column_inner:
  assumes "n (input_column_iterator st) = Suc c"
    and "Suc c < length (columns (input_column_iterator st))"
    and "Suc c < length (indexers st)"
  shows "peek_next_column env c st (Some ci) =
     Inr (st\<lparr>input_column_iterator := (input_column_iterator st)\<lparr>n := Suc (Suc c)\<rparr>,
            indexers := (indexers st)
              [c := Some (set_next_column env ci
                            (new_ColumnIndexingScheme env (Some ci)
                               (extract_read_ids (columns (input_column_iterator st) ! Suc c))
                               (ploidy st))),
               Suc c := Some (new_ColumnIndexingScheme env (Some ci)
                               (extract_read_ids (columns (input_column_iterator st) ! Suc c))
                               (ploidy st))]\<rparr>,
          Some (columns (input_column_iterator st) ! Suc c),
          Some (extract_read_ids (columns (input_column_iterator st) ! Suc c)),
          Some (new_ColumnIndexingScheme env (Some ci)
                  (extract_read_ids (columns (input_column_iterator st) ! Suc c))
                  (ploidy st)))"
  using assms by (simp add: peek_next_column_def has_next_def get_next_def)

lemma peek_next_column_last:
  assumes "n (input_column_iterator st) = Suc c"
    and "\<not> Suc c < length (columns (input_column_iterator st))"
  shows "peek_next_column env c st nix = Inr (st, None, None, None)"
  using assms by (simp add: peek_next_column_def has_next_def)

lemma forward_step_invariant:
  assumes inv: "forward_invariant env k st0 c fs"
    and c: "c < get_column_count (input_column_iterator st0)"
    and r: "forward_step env k c fs = r"
  shows "(r = Inl MendelianConflict \<longrightarrow> conflict_position env st0 c)
       \<and> (\<forall>fs'. r = Inr fs' \<longrightarrow> forward_invariant env k st0 (Suc c) fs')"
proof -
  obtain st nic nri nix where fs: "fs = (st, nic, nri, nix)" by (cases fs)
  let ?m = "get_column_count (input_column_iterator st0)"
  let ?cols = "columns (input_column_iterator st0)"
  let ?raw = "raw_indexer env (ploidy st0) ?cols"
  from inv c have si: "same_inputs st0 st" and tl: "three_lengths st ?m"
    and li: "length (indexers st) = ?m" and cur: "n (input_column_iterator st) = Suc c"
    and nic: "nic = Some (?cols ! c)" and nix: "nix = Some (?raw c)"
    and ixc: "indexers st ! c = Some (?raw c)" and opt: "get_optimum st = cleared_optimum"
    and ixs: "\<forall>j < ?m. j < c \<longrightarrow> indexers st ! j = Some (indexer_of env st0 j)"
    and absent: "\<forall>j < ?m. c \<le> j \<longrightarrow> tables_at st j = (None, None, None)"
    and sound: "\<forall>j < ?m. tables_at st j = (None, None, None) \<or> holds_original env st j"
    and pres: "\<forall>j < c. Suc j < ?m \<and> (Suc j = c \<or> k \<le> 1 \<or> j mod k = 0)
                  \<longrightarrow> holds_original env st j"
    and ncf: "\<forall>j < ?m. j < c \<longrightarrow> \<not> conflict_position env st0 j"
    by (simp_all add: forward_invariant_def fs Let_def)
  from si have cols: "columns (input_column_iterator st) = ?cols"
    and pl: "ploidy st = ploidy st0"
    and cnt: "get_column_count (input_column_iterator st) = ?m"
    by (simp_all add: same_inputs_def get_column_count_def)
  have m: "length ?cols = ?m" by (simp add: get_column_count_def)
  define st1 where "st1 =
    (if Suc c < ?m
     then st\<lparr>input_column_iterator := (input_column_iterator st)\<lparr>n := Suc (Suc c)\<rparr>,
             indexers := (indexers st)
               [c := Some (indexer_of env st0 c), Suc c := Some (?raw (Suc c))]\<rparr>
     else st)"
  define nic1 where "nic1 = (if Suc c < ?m then Some (?cols ! Suc c) else None)"
  define nri1 where "nri1 = (if Suc c < ?m then Some (extract_read_ids (?cols ! Suc c)) else None)"
  define nix1 where "nix1 = (if Suc c < ?m then Some (?raw (Suc c)) else None)"
  have pk: "peek_next_column env c st nix = Inr (st1, nic1, nri1, nix1)"
  proof (cases "Suc c < ?m")
    case True
    with m have fi: "indexer_of env st0 c = set_next_column env (?raw c) (?raw (Suc c))"
      by (simp add: indexer_of_def final_indexer_def)
    from True cur cols m li
    show ?thesis
      unfolding nix
      by (subst peek_next_column_inner)
         (simp_all add: st1_def nic1_def nri1_def nix1_def fi pl)
  next
    case False
    with cur cols m show ?thesis
      by (subst peek_next_column_last) (simp_all add: st1_def nic1_def nri1_def nix1_def)
  qed
  have si1: "same_inputs st0 st1" using si by (simp add: st1_def same_inputs_def)
  have tl1: "three_lengths st1 ?m" using tl by (simp add: st1_def)
  have li1: "length (indexers st1) = ?m" using li by (simp add: st1_def)
  have cnt1: "get_column_count (input_column_iterator st1) = ?m"
    using si1 by (simp add: same_inputs_def get_column_count_def)
  have cols1: "columns (input_column_iterator st1) = ?cols"
    using si1 by (simp add: same_inputs_def)
  have ta1: "\<And>j. tables_at st1 j = tables_at st j" by (simp add: st1_def)
  have opt1: "get_optimum st1 = cleared_optimum"
    using opt by (simp add: st1_def get_optimum_def)
  have cur1: "n (input_column_iterator st1) = min (Suc (Suc c)) ?m"
    using cur c by (simp add: st1_def)
  have ixc1: "indexers st1 ! c = Some (indexer_of env st0 c)"
  proof (cases "Suc c < ?m")
    case True
    with li c show ?thesis by (simp add: st1_def)
  next
    case False
    with m have "indexer_of env st0 c = ?raw c" by (simp add: indexer_of_def final_indexer_def)
    with False ixc show ?thesis by (simp add: st1_def)
  qed
  have ixs1: "\<forall>j < ?m. j < Suc c \<longrightarrow> indexers st1 ! j = Some (indexer_of env st0 j)"
  proof (intro allI impI)
    fix j assume j: "j < ?m" "j < Suc c"
    show "indexers st1 ! j = Some (indexer_of env st0 j)"
    proof (cases "j = c")
      case True
      with ixc1 show ?thesis by simp
    next
      case False
      with j have "j < c" by simp
      with ixs j have "indexers st ! j = Some (indexer_of env st0 j)" by simp
      with \<open>j < c\<close> show ?thesis by (simp add: st1_def)
    qed
  qed
  have ixn1: "Suc c < ?m \<Longrightarrow> indexers st1 ! Suc c = Some (?raw (Suc c))"
    using li by (simp add: st1_def)
  have io1: "\<And>j. indexer_of env st1 j = indexer_of env st0 j"
    using si1 by (rule indexer_of_same_inputs)
  have ho1: "\<And>j. holds_original env st1 j = holds_original env st j"
    by (rule holds_original_transfer) (use si si1 in \<open>simp_all add: ta1 same_inputs_def\<close>)
  have before: "0 < c \<longrightarrow> holds_original env st1 (c - 1)"
  proof
    assume "0 < c"
    with c pres have "holds_original env st (c - 1)" by simp
    then show "holds_original env st1 (c - 1)" by (simp add: ho1)
  qed
  have before_orig: "0 < c \<longrightarrow> (\<exists>t. original_tables env st0 (c - 1) = Inr (Some t))"
  proof
    assume "0 < c"
    with c pres have "holds_original env st (c - 1)" by simp
    then obtain p ib tb where "original_tables env st (c - 1) = Inr (Some (p, ib, tb))"
      by (rule holds_original_D)
    with original_tables_same_inputs [OF si, of env "c - 1"]
    show "\<exists>t. original_tables env st0 (c - 1) = Inr (Some t)" by simp
  qed
  have none1: "projection_column_table st1 ! c = None"
    using absent c ta1 [of c] by (simp add: tables_at_def)
  from r fs pk nic have r': "r =
    bind_r (compute_column env st1 c (Some (?cols ! c))) (\<lambda>st2.
      Inr (drop_previous_column k c st2, nic1, nri1, nix1))"
    by (simp add: forward_step_def)
  have ot1: "original_tables env st1 c = original_tables env st0 c"
    using si1 by (rule original_tables_same_inputs)
  note oc = original_tables_conflict [OF refl before_orig]
  have finish: "forward_invariant env k st0 (Suc c) (drop_previous_column k c st2, nic1, nri1, nix1)"
    if st2: "same_inputs st0 st2" "three_lengths st2 ?m" "indexers st2 = indexers st1"
      "input_column_iterator st2 = input_column_iterator st1"
      "Suc c < ?m \<longrightarrow> get_optimum st2 = cleared_optimum"
      "\<And>j. j \<noteq> c \<Longrightarrow> tables_at st2 j = tables_at st1 j"
      "Suc c < ?m \<longrightarrow> holds_original env st2 c"
      "\<not> Suc c < ?m \<longrightarrow> tables_at st2 c = (None, None, None)"
      and nc: "\<not> conflict_position env st0 c"
    for st2
  proof -
    let ?st3 = "drop_previous_column k c st2"
    note ta3 = tables_at_drop [OF st2(2) c, of k]
    have ho3: "holds_original env ?st3 j = holds_original env st2 j"
      if "tables_at ?st3 j = tables_at st2 j" for j
      by (rule holds_original_transfer [OF _ that]) simp
    have ho2: "holds_original env st2 j = holds_original env st j" if "j \<noteq> c" for j
      by (rule holds_original_transfer)
         (use st2(1,6) si that in \<open>simp_all add: ta1 same_inputs_def\<close>)
    have a1: "same_inputs st0 ?st3" using st2(1) by simp
    have a2: "three_lengths ?st3 ?m" using st2(2) by simp
    have a3: "length (indexers ?st3) = ?m" using st2(3) li1 by simp
    have a4: "n (input_column_iterator ?st3) = min (Suc (Suc c)) ?m"
      using st2(4) cur1 by simp
    have a5: "Suc c < ?m \<longrightarrow>
                 nic1 = Some (?cols ! Suc c) \<and> nix1 = Some (?raw (Suc c))
                 \<and> indexers ?st3 ! Suc c = Some (?raw (Suc c))
                 \<and> get_optimum ?st3 = cleared_optimum"
      using st2(3,5) ixn1 by (simp add: nic1_def nix1_def)
    have a6: "\<forall>j < ?m. j < Suc c \<longrightarrow> indexers ?st3 ! j = Some (indexer_of env st0 j)"
      using ixs1 st2(3) by simp
    have a7: "\<forall>j < ?m. Suc c \<le> j \<longrightarrow> tables_at ?st3 j = (None, None, None)"
    proof (intro allI impI)
      fix j assume j: "j < ?m" "Suc c \<le> j"
      then have "tables_at ?st3 j = tables_at st2 j" by (auto simp: ta3)
      also from j have "\<dots> = tables_at st j" by (simp add: st2(6) ta1)
      also from j absent have "\<dots> = (None, None, None)" by simp
      finally show "tables_at ?st3 j = (None, None, None)" .
    qed
    have a8: "\<forall>j < ?m. tables_at ?st3 j = (None, None, None) \<or> holds_original env ?st3 j"
    proof (intro allI impI)
      fix j assume j: "j < ?m"
      show "tables_at ?st3 j = (None, None, None) \<or> holds_original env ?st3 j"
      proof (cases "tables_at ?st3 j = tables_at st2 j")
        case False
        then show ?thesis by (simp add: ta3 split: if_splits)
      next
        case True
        show ?thesis
        proof (cases "j = c")
          case jc: True
          show ?thesis
          proof (cases "Suc c < ?m")
            case True
            with st2(7) jc ho3 [OF \<open>tables_at ?st3 j = tables_at st2 j\<close>] show ?thesis by simp
          next
            case False
            with st2(8) jc \<open>tables_at ?st3 j = tables_at st2 j\<close> show ?thesis by simp
          qed
        next
          case False
          with sound j ho2 [OF False] ho3 [OF True] True st2(6) [OF False] ta1 [of j]
          show ?thesis by auto
        qed
      qed
    qed
    have a9: "\<forall>j < Suc c. Suc j < ?m \<and> (Suc j = Suc c \<or> k \<le> 1 \<or> j mod k = 0)
                  \<longrightarrow> holds_original env ?st3 j"
    proof (intro allI impI)
      fix j assume j: "j < Suc c" and h: "Suc j < ?m \<and> (Suc j = Suc c \<or> k \<le> 1 \<or> j mod k = 0)"
      show "holds_original env ?st3 j"
      proof (cases "j = c")
        case True
        with h have "Suc c < ?m" by simp
        moreover have "tables_at ?st3 c = tables_at st2 c" by (auto simp: ta3)
        ultimately show ?thesis using st2(7) ho3 [of c] True by simp
      next
        case False
        with j have jc: "j < c" by simp
        from h False have kk: "k \<le> 1 \<or> j mod k = 0" by simp
        from jc h kk pres have "holds_original env st j" by simp
        moreover from kk jc have "tables_at ?st3 j = tables_at st2 j"
          by (auto simp: ta3)
        ultimately show ?thesis using ho2 [OF False] ho3 [of j] by simp
      qed
    qed
    have a10: "\<forall>j < ?m. j < Suc c \<longrightarrow> \<not> conflict_position env st0 j"
      using ncf nc by (auto simp: less_Suc_eq)
    from a1 a2 a3 a4 a5 a6 a7 a8 a9 a10 show ?thesis
      by (simp add: forward_invariant_def Let_def)
  qed
  show ?thesis
  proof (cases "Suc c < ?m")
    case True
    have cc: "compute_column env st1 c (Some (?cols ! c)) =
      (case original_tables env st0 c of
         Inl e \<Rightarrow> Inl e
       | Inr tabs \<Rightarrow> Inr (store_tables st1 c tabs))"
      using compute_column_inner [where c = c and st = st1 and env = env and col = "Some (?cols ! c)"]
        True tl1 li1 none1 ixc1 before
      by (simp add: cnt1 cols1 io1 ot1 split: sum.splits)
    show ?thesis
    proof (cases "original_tables env st0 c")
      case (Inl e)
      with r' cc have "r = Inl e" by simp
      with oc Inl show ?thesis by simp
    next
      case (Inr tabs)
      from original_tables_inner_Some [OF True Inr] obtain p ib tb where
        tabs: "tabs = Some (p, ib, tb)" by (cases tabs) auto
      let ?st2 = "store_tables st1 c (Some (p, ib, tb))"
      from r' cc Inr tabs
      have rr: "r = Inr (drop_previous_column k c ?st2, nic1, nri1, nix1)" by simp
      from oc Inr have nc: "\<not> conflict_position env st0 c" by blast
      have t2: "\<And>j. tables_at ?st2 j = (if j = c then (Some p, Some ib, Some tb) else tables_at st1 j)"
        by (rule tables_at_store [OF tl1 c])
      have h2: "holds_original env ?st2 c"
      proof (rule holds_original_I)
        show "original_tables env ?st2 c = Inr (Some (p, ib, tb))"
          using original_tables_same_inputs [where st = st0 and st' = ?st2 and env = env and c = c]
            si1 Inr tabs by simp
        show "tables_at ?st2 c = (Some p, Some ib, Some tb)" by (simp add: t2)
      qed
      have "forward_invariant env k st0 (Suc c) (drop_previous_column k c ?st2, nic1, nri1, nix1)"
        by (rule finish) (use si1 tl1 opt1 h2 True nc in \<open>simp_all add: t2\<close>)
      with rr show ?thesis by simp
    qed
  next
    case False
    let ?prev = "if 0 < c then projection_column_table st1 ! (c - 1) else None"
    have cf: "compute_column env st1 c (Some (?cols ! c)) =
     bind_r (transmission_configurations (pedigree st1)) (\<lambda>T.
     bind_r (walk_column env st1 c (?cols ! c) ?prev (indexer_of env st1 c) T (get_optimum st1))
       (\<lambda>(tabs, opt). Inr (store_tables (set_optimum st1 opt) c tabs)))"
      using compute_column_fresh [where c = c and st = st1 and ix = "indexer_of env st1 c"
               and col = "Some (?cols ! c)" and env = env]
        c tl1 li1 none1 ixc1
      by (simp add: cnt1 cols1 io1)
    show ?thesis
    proof (cases "transmission_configurations (pedigree st1)")
      case (Inl e)
      with r' cf have "r = Inl e" by simp
      with transmission_configurations_not_conflict [of "pedigree st1"] Inl show ?thesis
        by auto
    next
      case (Inr T)
      let ?w = "walk_column env st1 c (?cols ! c) ?prev (indexer_of env st1 c) T (get_optimum st1)"
      have wc: "(?w = Inl MendelianConflict \<longrightarrow> conflict_position env st1 c)
              \<and> ((\<exists>x. ?w = Inr x) \<longrightarrow> \<not> conflict_position env st1 c)"
        using walk_column_conflict [OF Inr refl, where env = env and c = c and prev = ?prev
                and opt = "get_optimum st1"]
        by (simp add: cols1)
      have cp: "conflict_position env st1 c = conflict_position env st0 c"
        using si1 by (rule conflict_position_same_inputs)
      show ?thesis
      proof (cases ?w)
        case e: (Inl e)
        with r' cf Inr have "r = Inl e" by simp
        with wc e cp show ?thesis by simp
      next
        case q: (Inr q)
        obtain tabs o1 where qq: "q = (tabs, o1)" by (cases q)
        from False cnt1 have "\<not> Suc c < get_column_count (input_column_iterator st1)" by simp
        from walk_column_last_tabs [OF this q [unfolded qq]] have tabs: "tabs = None" .
        let ?st2 = "set_optimum st1 o1"
        from r' cf Inr q qq tabs
        have rr: "r = Inr (drop_previous_column k c ?st2, nic1, nri1, nix1)" by simp
        from q have "\<exists>x. ?w = Inr x" by blast
        with wc cp have nc: "\<not> conflict_position env st0 c" by blast
        have "forward_invariant env k st0 (Suc c) (drop_previous_column k c ?st2, nic1, nri1, nix1)"
          by (rule finish) (use si1 tl1 False nc absent c ta1 in \<open>simp_all\<close>)
        with rr show ?thesis by simp
      qed
    qed
  qed
qed

lemma first_column_invariant:
  assumes "0 < get_column_count (input_column_iterator st)"
  shows "\<exists>fs. first_column env (clear_table st) = Inr fs
            \<and> forward_invariant env k (clear_table st) 0 fs"
proof -
  let ?it = "input_column_iterator st"
  let ?m = "get_column_count ?it"
  let ?cols = "columns ?it"
  let ?ix = "new_ColumnIndexingScheme env None (extract_read_ids (?cols ! 0)) (ploidy st)"
  let ?st1 = "(clear_table st)\<lparr>input_column_iterator := ?it\<lparr>n := Suc 0\<rparr>,
                indexers := (replicate ?m None)[0 := Some ?ix]\<rparr>"
  from assms have m: "0 < length ?cols" by (simp add: get_column_count_def)
  then have gn: "get_next (jump_to_column ?it 0) = Inr (?cols ! 0, ?it\<lparr>n := Suc 0\<rparr>)"
    by (simp add: get_next_def jump_to_column_def has_next_def)
  from assms gn have fc: "first_column env (clear_table st)
    = Inr (?st1, Some (?cols ! 0), Some (extract_read_ids (?cols ! 0)), Some ?ix)"
    by (simp add: first_column_def Let_def)
  from m have m1: "min (Suc 0) (length ?cols) = Suc 0" by (cases ?cols) simp_all
  have ta: "\<And>j. j < ?m \<Longrightarrow> tables_at ?st1 j = (None, None, None)"
    by (simp add: tables_at_def)
  have "forward_invariant env k (clear_table st) 0
          (?st1, Some (?cols ! 0), Some (extract_read_ids (?cols ! 0)), Some ?ix)"
    using assms ta m1
    by (auto simp add: forward_invariant_def Let_def same_inputs_def three_lengths_def
        get_optimum_def cleared_optimum_def get_column_count_def)
  with fc show ?thesis by simp
qed

lemma forward_loop_bounded:
  assumes "forward_invariant env k st0 c fs"
    and "c \<le> b" and "b \<le> get_column_count (input_column_iterator st0)"
    and "forward_loop env k [c..<b] fs = r"
  shows "(r = Inl MendelianConflict \<longrightarrow> (\<exists>j < b. conflict_position env st0 j))
       \<and> (\<forall>fs'. r = Inr fs' \<longrightarrow> forward_invariant env k st0 b fs')"
  using assms
proof (induction "b - c" arbitrary: c fs)
  case 0
  then have "[c..<b] = []" and "b = c" by simp_all
  with "0.prems" show ?case by auto
next
  case (Suc d)
  let ?m = "get_column_count (input_column_iterator st0)"
  from Suc.hyps(2) have cb: "c < b" by simp
  with Suc.prems(3) have c: "c < ?m" by simp
  from cb have upt: "[c..<b] = c # [Suc c..<b]" by (simp add: upt_conv_Cons)
  note step = forward_step_invariant [OF Suc.prems(1) c refl]
  show ?case
  proof (cases "forward_step env k c fs")
    case (Inl e)
    with Suc.prems(4) upt have "r = Inl e" by simp
    with step Inl cb show ?thesis by auto
  next
    case (Inr fs1)
    with step have inv1: "forward_invariant env k st0 (Suc c) fs1" by simp
    from Suc.prems(4) upt Inr have rest: "forward_loop env k [Suc c..<b] fs1 = r" by simp
    from Suc.hyps(2) have d: "d = b - Suc c" by simp
    from cb have "Suc c \<le> b" by simp
    from Suc.hyps(1) [OF d inv1 this Suc.prems(3) rest] show ?thesis .
  qed
qed

lemma forward_loop_append:
  "forward_loop env k (xs @ ys) fs = bind_r (forward_loop env k xs fs) (forward_loop env k ys)"
proof (induction xs arbitrary: fs)
  case Nil
  show ?case by simp
next
  case (Cons x xs)
  show ?case
    by (cases "forward_step env k x fs") (simp_all add: Cons.IH)
qed

lemma same_inputs_clear_table [simp]: "same_inputs st (clear_table st)"
  by (simp add: same_inputs_def clear_table_def Let_def)

lemma get_column_count_clear_table [simp]:
  "get_column_count (input_column_iterator (clear_table st))
     = get_column_count (input_column_iterator st)"
  by (simp add: clear_table_def Let_def)

lemma forward_invariant_same_inputs:
  "forward_invariant env k st0 c (st, nic, nri, nix) \<Longrightarrow> same_inputs st0 st"
  by (simp add: forward_invariant_def Let_def)

lemma forward_invariant_holds:
  assumes "forward_invariant env k st0 c (st, nic, nri, nix)"
    and "j < c" and "Suc j < get_column_count (input_column_iterator st0)"
    and "Suc j = c \<or> k \<le> 1 \<or> j mod k = 0"
  shows "holds_original env st j"
proof -
  from assms(1) have a: "\<forall>j < c. Suc j < get_column_count (input_column_iterator st0)
       \<and> (Suc j = c \<or> k \<le> 1 \<or> j mod k = 0) \<longrightarrow> holds_original env st j"
    by (simp add: forward_invariant_def Let_def)
  from assms(3,4) have "Suc j < get_column_count (input_column_iterator st0)
       \<and> (Suc j = c \<or> k \<le> 1 \<or> j mod k = 0)" by (rule conjI)
  with a [rule_format, OF assms(2)] show ?thesis .
qed

lemma forward_invariant_sound:
  assumes "forward_invariant env k st0 c (st, nic, nri, nix)"
  shows "three_lengths st (get_column_count (input_column_iterator st0))"
    and "length (indexers st) = get_column_count (input_column_iterator st0)"
    and "\<forall>j < get_column_count (input_column_iterator st0).
           j < c \<longrightarrow> indexers st ! j = Some (indexer_of env st0 j)"
    and "\<forall>j < get_column_count (input_column_iterator st0).
           tables_at st j = (None, None, None) \<or> holds_original env st j"
    and "\<forall>j < get_column_count (input_column_iterator st0).
           j < c \<longrightarrow> \<not> conflict_position env st0 j"
  using assms by (simp_all add: forward_invariant_def Let_def)

lemma forward_sweep_invariant:
  assumes m: "0 < get_column_count (input_column_iterator st0)"
    and b: "b \<le> get_column_count (input_column_iterator st0)"
    and r: "forward_sweep env st0 b = r"
  shows "(r = Inl MendelianConflict \<longrightarrow> (\<exists>j < b. conflict_position env st0 j))
       \<and> (\<forall>fs. r = Inr fs \<longrightarrow>
            forward_invariant env (floor_sqrt (get_column_count (input_column_iterator st0)))
              (clear_table st0) b fs)"
proof -
  let ?m = "get_column_count (input_column_iterator st0)"
  let ?k = "floor_sqrt ?m"
  from first_column_invariant [OF m, of env ?k] obtain fs0 where
    fc: "first_column env (clear_table st0) = Inr fs0"
    and inv0: "forward_invariant env ?k (clear_table st0) 0 fs0" by blast
  from r fc have r': "forward_loop env ?k [0..<b] fs0 = r"
    by (simp add: forward_sweep_def Let_def)
  from b have b': "b \<le> get_column_count (input_column_iterator (clear_table st0))" by simp
  have cp: "\<And>j. conflict_position env (clear_table st0) j = conflict_position env st0 j"
    by (rule conflict_position_same_inputs) simp
  from forward_loop_bounded [OF inv0 _ b' r'] cp show ?thesis by simp
qed

lemma forward_sweep_prefix:
  assumes "forward_sweep env st0 b = Inr fs" and "a \<le> b"
  shows "\<exists>fs'. forward_sweep env st0 a = Inr fs'"
proof -
  let ?k = "floor_sqrt (get_column_count (input_column_iterator (clear_table st0)))"
  from assms(2) have "b = a + (b - a)" by simp
  with upt_add_eq_append [of 0 a "b - a"]
  have upt: "[0..<b] = [0..<a] @ [a..<b]" by simp
  show ?thesis
  proof (cases "first_column env (clear_table st0)")
    case (Inl e)
    with assms(1) show ?thesis by (simp add: forward_sweep_def Let_def)
  next
    case (Inr fs0)
    with assms(1) have "forward_loop env ?k [0..<b] fs0 = Inr fs"
      by (simp add: forward_sweep_def Let_def)
    then have "forward_loop env ?k ([0..<a] @ [a..<b]) fs0 = Inr fs"
      by (simp only: upt)
    then have "bind_r (forward_loop env ?k [0..<a] fs0) (forward_loop env ?k [a..<b]) = Inr fs"
      by (simp only: forward_loop_append)
    then obtain fs' where "forward_loop env ?k [0..<a] fs0 = Inr fs'"
      unfolding bind_r_eq_Inr by blast
    with Inr have "forward_sweep env st0 a = Inr fs'" by (simp add: forward_sweep_def Let_def)
    then show ?thesis ..
  qed
qed

text \<open>
  When the forward sweep completes, the tables of every column but the last were
  computed: they are the original tables of the column, held by the state after the
  round of the column.
\<close>

lemma forward_sweep_original:
  assumes run: "forward_sweep env st0 (get_column_count (input_column_iterator st0)) = Inr fs"
    and j: "Suc j < get_column_count (input_column_iterator st0)"
  shows "\<exists>fs' p ib tb. forward_sweep env st0 (Suc j) = Inr fs'
           \<and> tables_at (fst fs') j = (Some p, Some ib, Some tb)
           \<and> original_tables env st0 j = Inr (Some (p, ib, tb))"
proof -
  let ?m = "get_column_count (input_column_iterator st0)"
  from j have m: "0 < ?m" and le: "Suc j \<le> ?m" by simp_all
  from forward_sweep_prefix [OF run le] obtain fs' where
    fs': "forward_sweep env st0 (Suc j) = Inr fs'" by blast
  from forward_sweep_invariant [OF m le fs']
  have inv: "forward_invariant env (floor_sqrt ?m) (clear_table st0) (Suc j) fs'" by simp
  obtain st nic nri nix where f: "fs' = (st, nic, nri, nix)" by (cases fs')
  from inv have si: "same_inputs (clear_table st0) st"
    unfolding f by (rule forward_invariant_same_inputs)
  from j have "Suc j < get_column_count (input_column_iterator (clear_table st0))" by simp
  from forward_invariant_holds [OF inv [unfolded f] _ this]
  have h: "holds_original env st j" by simp
  from h obtain p ib tb where o: "original_tables env st j = Inr (Some (p, ib, tb))"
    and t: "tables_at st j = (Some p, Some ib, Some tb)"
    by (rule holds_original_D)
  have "same_inputs st0 st" by (rule same_inputs_trans [OF same_inputs_clear_table si])
  from original_tables_same_inputs [OF this, of env j] o
  have "original_tables env st0 j = Inr (Some (p, ib, tb))" by simp
  with fs' t f show ?thesis by simp
qed

section \<open>The backward pass\<close>

lemma tables_sound_D:
  assumes "tables_sound env st"
  shows "three_lengths st (get_column_count (input_column_iterator st))"
    and "length (indexers st) = get_column_count (input_column_iterator st)"
    and "\<And>j. j < get_column_count (input_column_iterator st)
           \<Longrightarrow> indexers st ! j = Some (indexer_of env st j)"
    and "\<And>j. j < get_column_count (input_column_iterator st)
           \<Longrightarrow> tables_at st j = (None, None, None) \<or> holds_original env st j"
proof -
  let ?m = "get_column_count (input_column_iterator st)"
  from assms have l: "three_lengths st ?m"
    and ix: "indexers st = map (\<lambda>c. Some (indexer_of env st c)) [0..<?m]"
    and la: "list_all (\<lambda>j. tables_at st j = (None, None, None) \<or> holds_original env st j)
               [0..<?m]"
    by (simp_all add: tables_sound_def Let_def three_lengths_def)
  show "three_lengths st ?m" by (rule l)
  from ix have "length (indexers st) = length (map (\<lambda>c. Some (indexer_of env st c)) [0..<?m])"
    by (rule arg_cong)
  then show "length (indexers st) = ?m" by simp
  show "indexers st ! j = Some (indexer_of env st j)" if "j < ?m" for j
  proof -
    from ix have "indexers st ! j = map (\<lambda>c. Some (indexer_of env st c)) [0..<?m] ! j"
      by (rule arg_cong)
    with that show ?thesis by simp
  qed
  show "tables_at st j = (None, None, None) \<or> holds_original env st j" if "j < ?m" for j
    using la that by (simp add: list_all_iff)
qed

lemma tables_sound_I:
  assumes "three_lengths st (get_column_count (input_column_iterator st))"
    and "length (indexers st) = get_column_count (input_column_iterator st)"
    and "\<And>j. j < get_column_count (input_column_iterator st)
           \<Longrightarrow> indexers st ! j = Some (indexer_of env st j)"
    and "\<And>j. j < get_column_count (input_column_iterator st)
           \<Longrightarrow> tables_at st j = (None, None, None) \<or> holds_original env st j"
  shows "tables_sound env st"
proof -
  let ?m = "get_column_count (input_column_iterator st)"
  have ix: "indexers st = map (\<lambda>c. Some (indexer_of env st c)) [0..<?m]"
    by (rule nth_equalityI) (simp_all add: assms(2,3))
  have la: "list_all (\<lambda>j. tables_at st j = (None, None, None) \<or> holds_original env st j)
               [0..<?m]"
    using assms(4) by (simp add: list_all_iff)
  from assms(1) ix la show ?thesis
    by (simp add: tables_sound_def Let_def three_lengths_def)
qed

text \<open>
  A state stays sound when the inputs, the lengths and the indexers are kept and the
  tables of every column are kept, deleted or replaced by the original ones.
\<close>

lemma tables_sound_update:
  assumes sound: "tables_sound env st"
    and si: "same_inputs st st'"
    and len: "three_lengths st' (get_column_count (input_column_iterator st))"
    and ix: "indexers st' = indexers st"
    and tabs: "\<And>j. j < get_column_count (input_column_iterator st) \<Longrightarrow>
                 tables_at st' j = tables_at st j \<or> tables_at st' j = (None, None, None)
                 \<or> holds_original env st' j"
  shows "tables_sound env st'"
proof (rule tables_sound_I)
  let ?m = "get_column_count (input_column_iterator st)"
  from si have m: "get_column_count (input_column_iterator st') = ?m"
    by (rule get_column_count_same_inputs)
  show "three_lengths st' (get_column_count (input_column_iterator st'))"
    using len m by simp
  show "length (indexers st') = get_column_count (input_column_iterator st')"
    using tables_sound_D(2) [OF sound] ix m by simp
  show "indexers st' ! j = Some (indexer_of env st' j)"
    if "j < get_column_count (input_column_iterator st')" for j
  proof -
    from that m have "j < ?m" by simp
    from tables_sound_D(3) [OF sound this] ix indexer_of_same_inputs [OF si, of env j]
    show ?thesis by simp
  qed
  show "tables_at st' j = (None, None, None) \<or> holds_original env st' j"
    if "j < get_column_count (input_column_iterator st')" for j
  proof -
    from that m have j: "j < ?m" by simp
    from tabs [OF j] show ?thesis
    proof (elim disjE)
      assume e: "tables_at st' j = tables_at st j"
      from holds_original_transfer [OF si e, of env]
      have "holds_original env st' j = holds_original env st j" .
      with tables_sound_D(4) [OF sound j] e show ?thesis by auto
    qed simp_all
  qed
qed

lemma holds_original_tables:
  assumes "holds_original env st j" and "original_tables env st j = Inr (Some (p, ib, tb))"
  shows "tables_at st j = (Some p, Some ib, Some tb)"
  using assms by (simp add: holds_original_def)

lemma holds_original_kept:
  assumes "same_inputs st st'" and "tables_at st' j = tables_at st j"
    and "holds_original env st j"
  shows "holds_original env st' j"
  using holds_original_transfer [OF assms(1,2), of env] assms(3) by simp

text \<open>
  In a sound state \<^verbatim>\<open>compute_column\<close> without a column (as the backtrace calls it), for
  a column that is not the last one and whose predecessor holds its tables: the column
  holds its original tables afterwards, and nothing else changes but the cursor of the
  column iterator.
\<close>

lemma recompute_one:
  assumes sound: "tables_sound env st"
    and c: "Suc c < get_column_count (input_column_iterator st)"
    and before: "0 < c \<longrightarrow> holds_original env st (c - 1)"
    and orig: "original_tables env st c = Inr (Some (p, ib, tb))"
  shows "\<exists>st'. compute_column env st c None = Inr st'
           \<and> tables_sound env st' \<and> same_inputs st st'
           \<and> index_path st' = index_path st \<and> get_optimum st' = get_optimum st
           \<and> (\<forall>j. tables_at st' j
                  = (if j = c then (Some p, Some ib, Some tb) else tables_at st j))"
proof -
  let ?m = "get_column_count (input_column_iterator st)"
  note len = tables_sound_D(1) [OF sound]
  note li = tables_sound_D(2) [OF sound]
  from c have c': "c < ?m" by simp
  note ixc = tables_sound_D(3) [OF sound c']
  show ?thesis
  proof (cases "tables_at st c = (None, None, None)")
    case True
    then have none: "projection_column_table st ! c = None" by (simp add: tables_at_def)
    let ?st' = "store_tables
                  (st\<lparr>input_column_iterator := (input_column_iterator st)\<lparr>n := Suc c\<rparr>\<rparr>)
                  c (Some (p, ib, tb))"
    from compute_column_inner [OF c len li none ixc _ before, of None] orig
    have cc: "compute_column env st c None = Inr ?st'" by simp
    have si: "same_inputs st ?st'" by simp
    have tl: "three_lengths ?st' ?m" using len by simp
    have tl0: "three_lengths (st\<lparr>input_column_iterator := (input_column_iterator st)\<lparr>n := Suc c\<rparr>\<rparr>) ?m"
      using len by simp
    have ta: "tables_at ?st' j = (if j = c then (Some p, Some ib, Some tb) else tables_at st j)"
      for j
      using tables_at_store [OF tl0 c', of p ib tb j] by simp
    have hc: "holds_original env ?st' c"
    proof (rule holds_original_I)
      from original_tables_same_inputs [OF si, of env c] orig
      show "original_tables env ?st' c = Inr (Some (p, ib, tb))" by simp
      from ta [of c] show "tables_at ?st' c = (Some p, Some ib, Some tb)" by simp
    qed
    have "tables_sound env ?st'"
    proof (rule tables_sound_update [OF sound si tl])
      show "indexers ?st' = indexers st" by simp
      show "tables_at ?st' j = tables_at st j \<or> tables_at ?st' j = (None, None, None)
                 \<or> holds_original env ?st' j" for j
        using ta [of j] hc by (cases "j = c") simp_all
    qed
    moreover have "index_path ?st' = index_path st" by simp
    moreover have "get_optimum ?st' = get_optimum st" by simp
    ultimately show ?thesis using cc si ta by blast
  next
    case False
    with tables_sound_D(4) [OF sound c'] have "holds_original env st c" by simp
    from holds_original_tables [OF this orig]
    have t: "tables_at st c = (Some p, Some ib, Some tb)" .
    from compute_column_present [OF c' len t]
    have "compute_column env st c None = Inr st" .
    with sound t show ?thesis by auto
  qed
qed
lemma recompute_loop_original:
  assumes sound: "tables_sound env st"
    and a: "0 < a" and b: "b < get_column_count (input_column_iterator st)"
    and before: "holds_original env st (a - 1)"
    and orig: "\<forall>j. Suc j < get_column_count (input_column_iterator st)
                 \<longrightarrow> (\<exists>t. original_tables env st j = Inr (Some t))"
  shows "\<exists>st'. recompute_loop env [a..<b] st = Inr st'
           \<and> tables_sound env st' \<and> same_inputs st st'
           \<and> index_path st' = index_path st \<and> get_optimum st' = get_optimum st
           \<and> (\<forall>j. tables_at st' j = tables_at st j \<or> (a \<le> j \<and> j < b))
           \<and> (\<forall>j. holds_original env st j \<longrightarrow> holds_original env st' j)
           \<and> (\<forall>j. a \<le> j \<and> j < b \<longrightarrow> holds_original env st' j)"
  using assms
proof (induction "b - a" arbitrary: a st)
  case 0
  then have ba: "b \<le> a" by simp
  then have "recompute_loop env [a..<b] st = Inr st" by simp
  moreover from ba have "\<forall>j. \<not> (a \<le> j \<and> j < b)" by simp
  ultimately show ?case using "0.prems"(1) by (intro exI [of _ st]) auto
next
  case (Suc d)
  let ?m = "get_column_count (input_column_iterator st)"
  from Suc.hyps(2) have ab: "a < b" by simp
  then have upt: "[a..<b] = a # [Suc a..<b]" by (simp add: upt_conv_Cons)
  from ab Suc.prems(3) have c: "Suc a < ?m" by simp
  from Suc.prems(5) c obtain t where "original_tables env st a = Inr (Some t)" by blast
  then obtain p ib tb where o: "original_tables env st a = Inr (Some (p, ib, tb))"
    by (cases t) auto
  from Suc.prems(2,4) have bf: "0 < a \<longrightarrow> holds_original env st (a - 1)" by simp
  from recompute_one [OF Suc.prems(1) c bf o] obtain st1 where
    cc: "compute_column env st a None = Inr st1"
    and s1: "tables_sound env st1" and si1: "same_inputs st st1"
    and ip1: "index_path st1 = index_path st" and op1: "get_optimum st1 = get_optimum st"
    and ta1: "\<forall>j. tables_at st1 j = (if j = a then (Some p, Some ib, Some tb)
                                      else tables_at st j)"
    by blast
  from si1 have m1: "get_column_count (input_column_iterator st1) = ?m"
    by (rule get_column_count_same_inputs)
  have o1: "original_tables env st1 j = original_tables env st j" for j
    by (rule original_tables_same_inputs [OF si1])
  have ha: "holds_original env st1 a"
  proof (rule holds_original_I)
    from o o1 [of a] show "original_tables env st1 a = Inr (Some (p, ib, tb))" by simp
    from ta1 show "tables_at st1 a = (Some p, Some ib, Some tb)" by simp
  qed
  have keep1: "holds_original env st1 j" if "holds_original env st j" for j
  proof (cases "j = a")
    case True
    with ha show ?thesis by simp
  next
    case False
    with ta1 have "tables_at st1 j = tables_at st j" by simp
    from holds_original_kept [OF si1 this that] show ?thesis .
  qed
  from Suc.hyps(2) have d: "d = b - Suc a" by simp
  have p1: "0 < Suc a" by simp
  from Suc.prems(3) m1 have p2: "b < get_column_count (input_column_iterator st1)" by simp
  from ha have p3: "holds_original env st1 (Suc a - 1)" by simp
  from Suc.prems(5) m1 o1
  have p4: "\<forall>j. Suc j < get_column_count (input_column_iterator st1)
                 \<longrightarrow> (\<exists>t. original_tables env st1 j = Inr (Some t))" by simp
  from Suc.hyps(1) [OF d s1 p1 p2 p3 p4] obtain st' where
    rl: "recompute_loop env [Suc a..<b] st1 = Inr st'"
    and s': "tables_sound env st'" and si': "same_inputs st1 st'"
    and ip': "index_path st' = index_path st1" and op': "get_optimum st' = get_optimum st1"
    and ta': "\<forall>j. tables_at st' j = tables_at st1 j \<or> (Suc a \<le> j \<and> j < b)"
    and keep': "\<forall>j. holds_original env st1 j \<longrightarrow> holds_original env st' j"
    and new': "\<forall>j. Suc a \<le> j \<and> j < b \<longrightarrow> holds_original env st' j"
    by blast
  from upt cc rl have r: "recompute_loop env [a..<b] st = Inr st'" by simp
  have si: "same_inputs st st'" by (rule same_inputs_trans [OF si1 si'])
  have ta: "\<forall>j. tables_at st' j = tables_at st j \<or> (a \<le> j \<and> j < b)"
  proof
    fix j
    from ta' have "tables_at st' j = tables_at st1 j \<or> (Suc a \<le> j \<and> j < b)" by simp
    then show "tables_at st' j = tables_at st j \<or> (a \<le> j \<and> j < b)"
    proof
      assume e: "tables_at st' j = tables_at st1 j"
      show ?thesis
      proof (cases "j = a")
        case True
        with ab show ?thesis by simp
      next
        case False
        with ta1 e show ?thesis by simp
      qed
    next
      assume "Suc a \<le> j \<and> j < b"
      then show ?thesis by simp
    qed
  qed
  have keep: "\<forall>j. holds_original env st j \<longrightarrow> holds_original env st' j"
    using keep1 keep' by blast
  have new: "\<forall>j. a \<le> j \<and> j < b \<longrightarrow> holds_original env st' j"
  proof (intro allI impI)
    fix j assume j: "a \<le> j \<and> j < b"
    show "holds_original env st' j"
    proof (cases "j = a")
      case True
      with ha keep' show ?thesis by simp
    next
      case False
      with j have "Suc a \<le> j \<and> j < b" by simp
      with new' show ?thesis by simp
    qed
  qed
  from r s' si ip' ip1 op' op1 ta keep new show ?case by simp
qed

text \<open>
  Lines 213--221 in a sound state whose last stored column before \<open>i\<close> holds its
  tables: afterwards column \<open>i - 1\<close> holds its original tables, and when it had been
  dropped, so does every column after the stored one.
\<close>

lemma ensure_column_original:
  assumes sound: "tables_sound env st"
    and i: "0 < i" "i < get_column_count (input_column_iterator st)"
    and k: "0 < k"
    and chk: "holds_original env st ((i - 1) div k * k)"
    and orig: "\<forall>j. Suc j < get_column_count (input_column_iterator st)
                 \<longrightarrow> (\<exists>t. original_tables env st j = Inr (Some t))"
  shows "\<exists>st'. ensure_column env k i st = Inr st'
           \<and> tables_sound env st' \<and> same_inputs st st'
           \<and> index_path st' = index_path st \<and> get_optimum st' = get_optimum st
           \<and> (\<forall>j. tables_at st' j = tables_at st j \<or> ((i - 1) div k * k < j \<and> j < i))
           \<and> (\<forall>j. holds_original env st j \<longrightarrow> holds_original env st' j)
           \<and> holds_original env st' (i - 1)
           \<and> (projection_column_table st ! (i - 1) = None
                \<longrightarrow> (\<forall>j. (i - 1) div k * k < j \<and> j < i \<longrightarrow> holds_original env st' j))"
proof -
  let ?m = "get_column_count (input_column_iterator st)"
  let ?j0 = "(i - 1) div k * k"
  note len = tables_sound_D(1) [OF sound]
  from len have lp: "length (projection_column_table st) = ?m" by (simp add: three_lengths_def)
  have j0: "?j0 \<le> i - 1" by (rule div_times_less_eq_dividend)
  from j0 i have j0m: "?j0 < ?m" by linarith
  from i have i1: "i - 1 < ?m" by simp
  from chk obtain p0 ib0 tb0 where t0: "tables_at st ?j0 = (Some p0, Some ib0, Some tb0)"
    by (rule holds_original_D)
  then have pj: "projection_column_table st ! ?j0 = Some p0" by (simp add: tables_at_def)
  show ?thesis
  proof (cases "projection_column_table st ! (i - 1)")
    case None
    with pj have ne: "?j0 \<noteq> i - 1" by auto
    with j0 have lt: "?j0 < i - 1" by linarith
    have a: "0 < ?j0 + 1" by simp
    from chk have bf: "holds_original env st (?j0 + 1 - 1)" by simp
    from recompute_loop_original [OF sound a i(2) bf orig] obtain st' where
      rl: "recompute_loop env [?j0 + 1..<i] st = Inr st'"
      and s': "tables_sound env st'" and si': "same_inputs st st'"
      and ip': "index_path st' = index_path st" and op': "get_optimum st' = get_optimum st"
      and ta': "\<forall>j. tables_at st' j = tables_at st j \<or> (?j0 + 1 \<le> j \<and> j < i)"
      and keep': "\<forall>j. holds_original env st j \<longrightarrow> holds_original env st' j"
      and new': "\<forall>j. ?j0 + 1 \<le> j \<and> j < i \<longrightarrow> holds_original env st' j"
      by blast
    from None pj k lp i1 j0m rl have e: "ensure_column env k i st = Inr st'"
      by (simp add: ensure_column_def at_ub_def)
    from ta' have ta: "\<forall>j. tables_at st' j = tables_at st j \<or> (?j0 < j \<and> j < i)"
      by (simp add: Suc_le_eq)
    from new' have new: "\<forall>j. ?j0 < j \<and> j < i \<longrightarrow> holds_original env st' j"
      by (simp add: Suc_le_eq)
    from lt i(1) have "?j0 < i - 1 \<and> i - 1 < i" by simp
    with new have h: "holds_original env st' (i - 1)" by blast
    from e s' si' ip' op' ta keep' h new show ?thesis by blast
  next
    case (Some p)
    with lp i1 have e: "ensure_column env k i st = Inr st"
      by (simp add: ensure_column_def at_ub_def)
    from Some have "tables_at st (i - 1) \<noteq> (None, None, None)" by (simp add: tables_at_def)
    with tables_sound_D(4) [OF sound i1] have h: "holds_original env st (i - 1)" by simp
    from e sound h Some show ?thesis by simp
  qed
qed

end
